theory Spec2Isabelle
  imports Complex_Main
begin

section \<open>JSON values\<close>

text \<open>
  Values that travel through the store, the cache and the queue are JSON values.
  \<open>JNull\<close> stands for both \<open>null\<close> and \<open>undefined\<close>: every test of the source that
  these definitions embed (\<open>!x\<close>, \<open>x || d\<close>, \<open>x != null\<close>) treats the two alike.
  Numbers are integers (epoch milliseconds and seconds).
\<close>

datatype json =
    JNull
  | JBool bool
  | JNum int
  | JStr string
  | JArr "json list"
  | JObj "(string \<times> json) list"

text \<open>JavaScript truthiness: \<open>null\<close>, \<open>false\<close>, \<open>0\<close> and the empty string are falsy.\<close>

fun truthy :: "json \<Rightarrow> bool" where
  "truthy JNull = False"
| "truthy (JBool b) = b"
| "truthy (JNum n) = (n \<noteq> 0)"
| "truthy (JStr s) = (s \<noteq> [])"
| "truthy (JArr _) = True"
| "truthy (JObj _) = True"

section \<open>Cache\<close>

text \<open>
  \<open>Cache.set\<close> writes \<open>{ t: Date.now(), v: val }\<close> under \<open>cache:key\<close>; nothing else writes
  those keys, so the part of the store the cache sees is a map from cache keys to such
  records. \<open>Store.get\<close> yields the fallback \<open>null\<close> for a key that is not there.
\<close>

record cache_rec =
  rec_t :: int
  rec_v :: json

type_synonym cache_store = "string \<rightharpoonup> cache_rec"

text \<open>
  \<open>Cache.get(key, maxAgeMs)\<close>: \<open>null\<close> without a record; \<open>null\<close> when \<open>rec.t\<close> is truthy
  and the age exceeds \<open>maxAgeMs\<close>; \<open>rec.v\<close> otherwise. The first argument is \<open>Date.now()\<close>.
\<close>

definition Cache_get :: "cache_store \<Rightarrow> int \<Rightarrow> string \<Rightarrow> int \<Rightarrow> json" where
  "Cache_get store now key maxAgeMs =
     (case store key of
        None \<Rightarrow> JNull
      | Some r \<Rightarrow>
          if rec_t r \<noteq> 0 \<and> now - rec_t r > maxAgeMs then JNull else rec_v r)"

text \<open>The default of the parameter \<open>maxAgeMs\<close>.\<close>

definition Cache_maxAge_default :: int where
  "Cache_maxAge_default = 10 * 60 * 1000"

definition Cache_get_default :: "cache_store \<Rightarrow> int \<Rightarrow> string \<Rightarrow> json" where
  "Cache_get_default store now key = Cache_get store now key Cache_maxAge_default"

definition Cache_set :: "cache_store \<Rightarrow> int \<Rightarrow> string \<Rightarrow> json \<Rightarrow> cache_store" where
  "Cache_set store now key val = store(key \<mapsto> \<lparr>rec_t = now, rec_v = val\<rparr>)"

text \<open>
  A call of \<open>Cache.set\<close> with the reading of \<open>Date.now()\<close> that it stamps, and the store
  after a run of such calls, oldest first, from the empty store. \<open>Cache.set\<close> is the only
  writer of the keys \<open>cache:...\<close>, so every store that \<open>Cache.get\<close> reads is of this form.
\<close>

record cache_write =
  w_now :: int
  w_key :: string
  w_val :: json

definition do_write :: "cache_store \<Rightarrow> cache_write \<Rightarrow> cache_store" where
  "do_write store w = Cache_set store (w_now w) (w_key w) (w_val w)"

definition written :: "cache_write list \<Rightarrow> cache_store" where
  "written ws = foldl do_write Map.empty ws"

section \<open>Strings\<close>

text \<open>
  Messages, paths, types, tokens and time stamps are only compared, searched and copied;
  they are strings of characters. The regular expression of \<open>isNetworkError\<close> has the
  flag \<open>i\<close> and ASCII words: a character matches a letter of a word when it is that
  letter in either case, which \<open>fold_ascii\<close> decides by mapping \<open>A\<close>..\<open>Z\<close> to \<open>a\<close>..\<open>z\<close>.
\<close>

definition lower_char :: "char \<Rightarrow> char" where
  "lower_char c =
     (let n = (of_char c :: nat) in if 65 \<le> n \<and> n \<le> 90 then char_of (n + 32) else c)"

definition fold_ascii :: "string \<Rightarrow> string" where
  "fold_ascii s = map lower_char s"

text \<open>
  Roles and login identifiers go through \<open>String.prototype.toLowerCase\<close> and
  \<open>String.prototype.trim\<close>, which work on all of Unicode. These strings are lists of
  UTF-16 code units, and the two functions are functions of the platform (see below).
  \<open>ustr\<close> gives the code units of an ASCII string.
\<close>

type_synonym ustring = "nat list"

definition ustr :: "string \<Rightarrow> ustring" where
  "ustr s = map of_char s"

text \<open>
  What the two functions, and \<open>String.prototype.toUpperCase\<close>, do on strings over
  \<open>U+0000\<close>..\<open>U+00FF\<close> and the dotless i \<open>U+0131\<close>: there the conversions go unit by unit.
  \<open>toLowerCase\<close> maps \<open>A\<close>..\<open>Z\<close> and the capital letters \<open>U+00C0\<close>..\<open>U+00DE\<close> (without the
  sign \<open>U+00D7\<close>) to the letter 32 above, and leaves the dotless i alone. \<open>toUpperCase\<close>
  maps the small letters back, the sharp s to \<open>SS\<close>, the micro sign to \<open>U+039C\<close>, the
  y with diaeresis to \<open>U+0178\<close>, and the dotless i to \<open>I\<close>. \<open>trim\<close> removes tab, line feed,
  vertical tab, form feed, carriage return, space and no-break space at both ends.
\<close>

definition lower_unit :: "nat \<Rightarrow> nat" where
  "lower_unit u =
     (if (65 \<le> u \<and> u \<le> 90) \<or> (192 \<le> u \<and> u \<le> 222 \<and> u \<noteq> 215) then u + 32 else u)"

definition lower_units :: "ustring \<Rightarrow> ustring" where
  "lower_units s = map lower_unit s"



definition white_unit :: "nat \<Rightarrow> bool" where
  "white_unit u = ((9 \<le> u \<and> u \<le> 13) \<or> u = 32 \<or> u = 160)"

definition trim_units :: "ustring \<Rightarrow> ustring" where
  "trim_units s = rev (dropWhile white_unit (rev (dropWhile white_unit s)))"





fun starts_with :: "string \<Rightarrow> string \<Rightarrow> bool" where
  "starts_with s [] = True"
| "starts_with [] (p # ps) = False"
| "starts_with (c # cs) (p # ps) = (c = p \<and> starts_with cs ps)"

text \<open>\<open>str_includes s p\<close>: the string \<open>p\<close> occurs in \<open>s\<close>.\<close>

fun str_includes :: "string \<Rightarrow> string \<Rightarrow> bool" where
  "str_includes [] p = (p = [])"
| "str_includes (c # cs) p = (starts_with (c # cs) p \<or> str_includes cs p)"

text \<open>\<open>s.split(c)\<close> for a one-character separator: never empty, \<open>[s]\<close> without separator.\<close>

fun split_on :: "char \<Rightarrow> string \<Rightarrow> string list" where
  "split_on c [] = [[]]"
| "split_on c (x # xs) =
     (if x = c then [] # split_on c xs
      else (case split_on c xs of [] \<Rightarrow> [[x]] | p # ps \<Rightarrow> (x # p) # ps))"

section \<open>Errors and their classification\<close>

text \<open>A thrown value, as far as the code reads it: its \<open>name\<close> and its \<open>message\<close>.\<close>

record err =
  e_name :: string
  e_message :: string

text \<open>
  \<open>isNetworkError(err)\<close>; the first argument is \<open>navigator.onLine\<close> at the time of the
  call. The regular expression \<open>/failed to fetch|networkerror|load failed|network/i\<close> is a
  case-insensitive search for one of four words.
\<close>

definition network_pattern :: "string \<Rightarrow> bool" where
  "network_pattern msg =
     (let m = fold_ascii msg in
        str_includes m ''failed to fetch'' \<or> str_includes m ''networkerror''
        \<or> str_includes m ''load failed'' \<or> str_includes m ''network'')"

definition isNetworkError :: "bool \<Rightarrow> err \<Rightarrow> bool" where
  "isNetworkError onLine e =
     (if \<not> onLine then True
      else e_name e = ''TypeError'' \<or> network_pattern (e_message e))"

section \<open>The request function\<close>

text \<open>
  What \<open>fetch\<close> and \<open>res.json()\<close> give: a rejection with the thrown value, or a response
  with its \<open>ok\<close> flag, its status and its body (\<open>null\<close> when the body is not JSON).
\<close>

datatype fetch_outcome =
    Rejected err
  | Responded bool nat json

text \<open>The options of a call; an empty \<open>cacheKey\<close> and a zero \<open>cacheMaxAgeMs\<close> are falsy.\<close>

record api_options =
  cacheKey :: string
  cacheMaxAgeMs :: int

record api_state =
  cache :: cache_store
  lastFromCache :: bool
  lastSyncAt :: "string option"

text \<open>
  What the environment supplies to one call of \<open>api\<close>: \<open>navigator.onLine\<close> at entry, in
  the \<open>catch\<close> block and after the response; \<open>Date.now()\<close> at entry and after the request;
  \<open>now()\<close> for the last-sync stamp; and the outcome of \<open>fetch\<close>.
\<close>

record api_env =
  onLine_entry :: bool
  onLine_catch :: bool
  onLine_done :: bool
  now_entry :: int
  now_after :: int
  now_iso :: string
  fetched :: fetch_outcome

text \<open>Property access \<open>x.k\<close> for a name \<open>k\<close> that is not built in: \<open>undefined\<close> off objects.\<close>

fun get_prop :: "json \<Rightarrow> string \<Rightarrow> json" where
  "get_prop (JObj kvs) k = (case map_of kvs k of None \<Rightarrow> JNull | Some x \<Rightarrow> x)"
| "get_prop _ k = JNull"

text \<open>Decimal digits of a natural number, and of an integer.\<close>

function digits :: "nat \<Rightarrow> string" where
  "digits n = (if n < 10 then [char_of (48 + n)] else digits (n div 10) @ [char_of (48 + n mod 10)])"
  by pat_completeness auto
termination
  by (relation "measure id") auto

declare digits.simps [simp del]

definition show_int :: "int \<Rightarrow> string" where
  "show_int i = (if i < 0 then CHR ''-'' # digits (nat (- i)) else digits (nat i))"

fun join_with :: "string \<Rightarrow> string list \<Rightarrow> string" where
  "join_with sep [] = []"
| "join_with sep [s] = s"
| "join_with sep (s # t # ts) = s @ sep @ join_with sep (t # ts)"

text \<open>
  JavaScript's \<open>String(x)\<close>. An array is its elements joined by commas, with \<open>null\<close>
  elements empty. A number is printed digit by digit, as JavaScript prints the integers
  of magnitude below \<open>10^21\<close>: status codes, counts and time stamps are far below.
\<close>

fun js_String :: "json \<Rightarrow> string" where
  "js_String JNull = ''null''"
| "js_String (JBool b) = (if b then ''true'' else ''false'')"
| "js_String (JNum n) = show_int n"
| "js_String (JStr s) = s"
| "js_String (JArr xs) = join_with '','' (map (\<lambda>x. if x = JNull then [] else js_String x) xs)"
| "js_String (JObj kvs) = ''[object Object]''"

text \<open>\<open>new Error((data && (data.error || data.message)) || `HTTP ${res.status}`)\<close>\<close>

definition http_error :: "json \<Rightarrow> nat \<Rightarrow> err" where
  "http_error data status =
     (let m = (if truthy data
               then (if truthy (get_prop data ''error'') then get_prop data ''error''
                     else get_prop data ''message'')
               else data);
          msg = (if truthy m then m else JStr (''HTTP '' @ js_String (JNum (int status))))
      in \<lparr>e_name = ''Error'', e_message = js_String msg\<rparr>)"

text \<open>\<open>options.cacheMaxAgeMs || (10 * 60 * 1000)\<close>\<close>

definition maxAge_of :: "api_options \<Rightarrow> int" where
  "maxAge_of options =
     (if cacheMaxAgeMs options \<noteq> 0 then cacheMaxAgeMs options else 10 * 60 * 1000)"

text \<open>
  The result of a call: the value returned or the value thrown, the state afterwards,
  and whether the request was issued. The progress indicator and the log are left out.
\<close>

record api_result =
  outcome :: "err + json"
  state_after :: api_state
  issued :: bool

definition api :: "api_env \<Rightarrow> api_state \<Rightarrow> string \<Rightarrow> string \<Rightarrow> json \<Rightarrow> api_options
    \<Rightarrow> api_result" where
  "api env st path method body options =
     (let st0 = st\<lparr>lastFromCache := False\<rparr>;
          key = cacheKey options;
          maxAge = maxAge_of options;
          cached0 = Cache_get (cache st0) (now_entry env) key maxAge
      in
      if method = ''GET'' \<and> key \<noteq> [] \<and> \<not> onLine_entry env \<and> cached0 \<noteq> JNull
      then \<lparr>outcome = Inr cached0, state_after = st0\<lparr>lastFromCache := True\<rparr>,
            issued = False\<rparr>
      else
        (case fetched env of
           Rejected e \<Rightarrow>
             (let cached1 = Cache_get (cache st0) (now_after env) key maxAge in
              if method = ''GET'' \<and> key \<noteq> [] \<and> isNetworkError (onLine_catch env) e
                 \<and> cached1 \<noteq> JNull
              then \<lparr>outcome = Inr cached1, state_after = st0\<lparr>lastFromCache := True\<rparr>,
                    issued = True\<rparr>
              else \<lparr>outcome = Inl e, state_after = st0, issued = True\<rparr>)
         | Responded ok status data \<Rightarrow>
             if \<not> ok
             then \<lparr>outcome = Inl (http_error data status),
                   state_after = st0, issued = True\<rparr>
             else
               (let st1 = (if onLine_done env then st0\<lparr>lastSyncAt := Some (now_iso env)\<rparr>
                           else st0);
                    st2 = (if method = ''GET'' \<and> key \<noteq> []
                           then st1\<lparr>cache := Cache_set (cache st1) (now_after env) key data\<rparr>
                           else st1)
                in \<lparr>outcome = Inr data, state_after = st2\<lparr>lastFromCache := False\<rparr>,
                      issued = True\<rparr>)))"

section \<open>Tokens\<close>

text \<open>
  The functions of the platform that the credential functions call: \<open>atob\<close> and
  \<open>JSON.parse\<close> (\<open>None\<close> when they throw), the conversion to a number of a value that is
  neither a number nor a boolean (\<open>None\<close> for \<open>NaN\<close>), and \<open>toLowerCase\<close> and \<open>trim\<close> of
  strings.
\<close>

record platform =
  atob :: "string \<Rightarrow> string option"
  JSON_parse :: "string \<Rightarrow> json option"
  Number_of :: "json \<Rightarrow> int option"
  toLowerCase :: "ustring \<Rightarrow> ustring"
  trim :: "ustring \<Rightarrow> ustring"


definition ToNumber :: "platform \<Rightarrow> json \<Rightarrow> int option" where
  "ToNumber P x =
     (case x of JNum n \<Rightarrow> Some n | JBool b \<Rightarrow> Some (if b then 1 else 0) | _ \<Rightarrow> Number_of P x)"

definition replace_char :: "char \<Rightarrow> char \<Rightarrow> string \<Rightarrow> string" where
  "replace_char a b s = map (\<lambda>c. if c = a then b else c) s"

text \<open>
  The argument of \<open>atob\<close>: the second part of the token with \<open>-\<close> and \<open>_\<close> replaced and
  the padding added.
\<close>

definition padded_segment :: "string \<Rightarrow> string" where
  "padded_segment part =
     (let b64 = replace_char CHR ''_'' CHR ''/'' (replace_char CHR ''-'' CHR ''+'' part);
          pad = (if length b64 mod 4 \<noteq> 0 then replicate (4 - length b64 mod 4) CHR ''=''
                 else [])
      in b64 @ pad)"

text \<open>
  \<open>decodeJwtPayload(token)\<close>; \<open>null\<close> for a token with no second part and when \<open>atob\<close> or
  \<open>JSON.parse\<close> throws.
\<close>

definition decodeJwtPayload :: "platform \<Rightarrow> string \<Rightarrow> json" where
  "decodeJwtPayload P token =
     (let parts = split_on CHR ''.'' token in
      if length parts < 2 then JNull
      else
        (case atob P (padded_segment (parts ! 1)) of
           None \<Rightarrow> JNull
         | Some js \<Rightarrow> (case JSON_parse P js of None \<Rightarrow> JNull | Some p \<Rightarrow> p)))"

text \<open>\<open>isJwtExpired(token, skewSeconds)\<close>; the second argument is \<open>Date.now()\<close>.\<close>

definition isJwtExpired :: "platform \<Rightarrow> int \<Rightarrow> string \<Rightarrow> int \<Rightarrow> bool" where
  "isJwtExpired P now token skewSeconds =
     (let p = decodeJwtPayload P token in
      if \<not> truthy p \<or> \<not> truthy (get_prop p ''exp'') then True
      else
        (let nowSec = now div 1000 in
         case ToNumber P (get_prop p ''exp'') of
           None \<Rightarrow> False
         | Some e \<Rightarrow> e - skewSeconds \<le> nowSec))"


text \<open>
  A platform for concrete evaluations: \<open>atob\<close> and \<open>JSON.parse\<close> on the one payload
  \<open>{"exp":1700000000,"role":"user"}\<close>, throwing elsewhere; \<open>toLowerCase\<close> and \<open>trim\<close> as they
  are on strings over \<open>U+0000\<close>..\<open>U+00FF\<close> and \<open>U+0131\<close>.
\<close>

definition dq :: string where
  "dq = [CHR 0x22]"

definition example_payload_text :: string where
  "example_payload_text =
     ''{'' @ dq @ ''exp'' @ dq @ '':1700000000,'' @ dq @ ''role'' @ dq @ '':'' @ dq @ ''user'' @ dq @ ''}''"

definition example_platform :: platform where
  "example_platform =
     \<lparr>atob = (\<lambda>s. if s = ''eyJleHAiOjE3MDAwMDAwMDAsInJvbGUiOiJ1c2VyIn0=''
                 then Some example_payload_text else None),
      JSON_parse = (\<lambda>s. if s = example_payload_text
                       then Some (JObj [(''exp'', JNum 1700000000), (''role'', JStr ''user'')])
                       else None),
      Number_of = (\<lambda>x. None),
      toLowerCase = lower_units,
      trim = trim_units\<rparr>"

definition example_token :: string where
  "example_token = ''eyJhbGciOiJIUzI1NiJ9.eyJleHAiOjE3MDAwMDAwMDAsInJvbGUiOiJ1c2VyIn0.c2ln''"

section \<open>Offline accounts\<close>

text \<open>A session object; a field that is missing is the empty string.\<close>

record session =
  s_role :: ustring
  s_adminEmail :: ustring
  s_vendorId :: ustring
  s_userId :: ustring
  s_name :: ustring

record account =
  a_key :: ustring
  a_role :: ustring
  a_loginId :: ustring
  a_name :: ustring
  a_session :: session
  a_token :: string
  a_lastLoginAt :: string

text \<open>The keys of the store that the credential functions read and write.\<close>

record vault =
  offlineAccounts :: "account list"
  lastSession :: "session option"
  lastJwt :: "string option"
  lastLoginId :: "ustring option"
  lastLoginAt :: "string option"

text \<open>\<open>a || b\<close> on strings.\<close>

definition or_else :: "'a list \<Rightarrow> 'a list \<Rightarrow> 'a list" where
  "or_else a b = (if a \<noteq> [] then a else b)"

definition accountKey :: "platform \<Rightarrow> ustring \<Rightarrow> ustring \<Rightarrow> ustring" where
  "accountKey P role loginId = toLowerCase P role @ ustr '':'' @ toLowerCase P loginId"

text \<open>
  The role and the login identifier that \<open>rememberSession\<close> derives:
  \<open>String(session.role || "").toLowerCase()\<close> and
  \<open>String(identifier || session.adminEmail || session.vendorId || session.userId || "")
  .trim().toLowerCase()\<close>.
\<close>

definition session_role :: "platform \<Rightarrow> session \<Rightarrow> ustring" where
  "session_role P s = toLowerCase P (s_role s)"

definition session_loginId :: "platform \<Rightarrow> session \<Rightarrow> ustring \<Rightarrow> ustring" where
  "session_loginId P s identifier =
     toLowerCase P (trim P (or_else identifier (or_else (s_adminEmail s)
       (or_else (s_vendorId s) (s_userId s)))))"

text \<open>
  \<open>rememberSession(session, token, identifier)\<close>. The two strings \<open>t1\<close> and \<open>t2\<close> are what
  the two calls of \<open>now()\<close> return. An absent token or identifier is the empty string.
\<close>

definition rememberSession :: "platform \<Rightarrow> string \<Rightarrow> string \<Rightarrow> vault \<Rightarrow> session option \<Rightarrow> string
    \<Rightarrow> ustring \<Rightarrow> vault" where
  "rememberSession P t1 t2 st sess token identifier =
     (case sess of
        None \<Rightarrow> st
      | Some s \<Rightarrow>
          if token = [] then st
          else
            (let st1 = st\<lparr>lastSession := Some s, lastJwt := Some token\<rparr>;
                 st2 = (if identifier \<noteq> []
                        then st1\<lparr>lastLoginId := Some (toLowerCase P (trim P identifier))\<rparr>
                        else st1);
                 st3 = st2\<lparr>lastLoginAt := Some t1\<rparr>;
                 role = session_role P s;
                 loginId = session_loginId P s identifier
             in
             if role = [] \<or> loginId = [] then st3
             else
               (let key = accountKey P role loginId;
                    next = filter (\<lambda>a. a_key a \<noteq> key) (offlineAccounts st3)
                in st3\<lparr>offlineAccounts :=
                     take 5 (\<lparr>a_key = key, a_role = role, a_loginId = loginId,
                              a_name = s_name s, a_session = s, a_token = token,
                              a_lastLoginAt = t2\<rparr> # next)\<rparr>)))"

text \<open>
  A call of \<open>rememberSession\<close> with its arguments and clock readings, and a run of such
  calls, oldest first, from a given store.
\<close>

record login =
  l_session :: "session option"
  l_token :: string
  l_identifier :: ustring
  l_t1 :: string
  l_t2 :: string

definition remember :: "platform \<Rightarrow> vault \<Rightarrow> login \<Rightarrow> vault" where
  "remember P st l =
     rememberSession P (l_t1 l) (l_t2 l) st (l_session l) (l_token l) (l_identifier l)"

definition run_logins :: "platform \<Rightarrow> vault \<Rightarrow> login list \<Rightarrow> vault" where
  "run_logins P st ls = foldl (remember P) st ls"

text \<open>
  The call of \<open>rememberSession\<close> that \<open>Auth.userLogin\<close> makes after a login with the
  address \<open>email\<close>: the session is \<open>{ role: "user", userId, name }\<close>.
\<close>

definition userLogin :: "ustring \<Rightarrow> ustring \<Rightarrow> ustring \<Rightarrow> string \<Rightarrow> string \<Rightarrow> login" where
  "userLogin email userId name token t =
     \<lparr>l_session = Some \<lparr>s_role = ustr ''user'', s_adminEmail = [], s_vendorId = [],
                         s_userId = userId, s_name = name\<rparr>,
      l_token = token, l_identifier = email, l_t1 = t, l_t2 = t\<rparr>"

text \<open>Five logins of five users, oldest first.\<close>

definition example_logins :: "login list" where
  "example_logins =
     [userLogin (ustr ''ann@x.io'') (ustr ''u1'') (ustr ''Ann'') example_token ''t1'',
      userLogin (ustr ''bob@x.io'') (ustr ''u2'') (ustr ''Bob'') example_token ''t2'',
      userLogin (ustr ''cy@x.io'') (ustr ''u3'') (ustr ''Cy'') example_token ''t3'',
      userLogin (ustr ''dee@x.io'') (ustr ''u4'') (ustr ''Dee'') example_token ''t4'',
      userLogin (ustr ''eve@x.io'') (ustr ''u5'') (ustr ''Eve'') example_token ''t5'']"

text \<open>The store of a fresh installation.\<close>

definition empty_vault :: vault where
  "empty_vault = \<lparr>offlineAccounts = [], lastSession = None, lastJwt = None,
     lastLoginId = None, lastLoginAt = None\<rparr>"

text \<open>
  The key under which a call files its account, when it files one: a session and a
  token are there, and the derived role and login identifier are not empty.
\<close>

definition login_key :: "platform \<Rightarrow> login \<Rightarrow> ustring option" where
  "login_key P l =
     (case l_session l of
        None \<Rightarrow> None
      | Some s \<Rightarrow>
          if l_token l = [] \<or> session_role P s = [] \<or> session_loginId P s (l_identifier l) = []
          then None
          else Some (accountKey P (session_role P s) (session_loginId P s (l_identifier l))))"


text \<open>
  Recency order: from the keys used, latest first, the list without repetitions in
  which a key stands where its latest use stands.
\<close>

fun mru :: "'a list \<Rightarrow> 'a list" where
  "mru [] = []"
| "mru (k # ks) = k # filter (\<lambda>x. x \<noteq> k) (mru ks)"

definition acct_keys :: "vault \<Rightarrow> ustring list" where
  "acct_keys st = map a_key (offlineAccounts st)"


section \<open>The offline queue\<close>

record queue_item =
  q_id :: string
  q_type :: string
  q_payload :: json
  q_createdAt :: string
  q_error :: "string option"
  q_failedAt :: "string option"

text \<open>
  The fields of \<open>OfflineQueue\<close>. An armed timer is \<open>Some ms\<close>, with the delay it was
  armed with; \<open>None\<close> is \<open>null\<close>.
\<close>

record oq =
  qlist :: "queue_item list"
  flushing :: bool
  retryCount :: nat
  nextRetryAt :: "int option"
  timer :: "nat option"

text \<open>The initial object, with the list that the store holds.\<close>

definition oq_init :: "queue_item list \<Rightarrow> oq" where
  "oq_init xs = \<lparr>qlist = xs, flushing = False, retryCount = 0, nextRetryAt = None,
     timer = None\<rparr>"

text \<open>
  \<open>scheduleFlush()\<close>; \<open>now\<close> is \<open>Date.now()\<close> and \<open>rnd\<close> is \<open>Math.random()\<close>, a number
  in \<open>[0, 1)\<close>.
\<close>

definition scheduleFlush :: "int \<Rightarrow> real \<Rightarrow> oq \<Rightarrow> oq" where
  "scheduleFlush now rnd q =
     (if timer q \<noteq> None \<or> qlist q = [] then q
      else
        (let base = 2000;
             delay = min 60000 (base * 2 ^ retryCount q);
             jitter = nat \<lfloor>rnd * 400\<rfloor>;
             ms = delay + jitter
         in q\<lparr>nextRetryAt := Some (now + int ms), timer := Some ms\<rparr>))"

definition clearSchedule :: "oq \<Rightarrow> oq" where
  "clearSchedule q = q\<lparr>timer := None, nextRetryAt := None\<rparr>"

text \<open>
  The argument of \<open>enqueue\<close>; a missing \<open>id\<close> or \<open>createdAt\<close> is the empty string and a
  missing \<open>payload\<close> is \<open>JNull\<close>.
\<close>

record enqueue_arg =
  i_id :: string
  i_type :: string
  i_payload :: json
  i_createdAt :: string

text \<open>
  \<open>enqueue(item)\<close>; \<open>fresh\<close> is the generated identifier \<open>`q_${Date.now()}_${uid()}`\<close>,
  \<open>t\<close> is \<open>now()\<close>, \<open>onLine\<close> is \<open>navigator.onLine\<close>. The entry and the object afterwards.
\<close>

definition entry_of :: "string \<Rightarrow> string \<Rightarrow> enqueue_arg \<Rightarrow> queue_item" where
  "entry_of fresh t item =
     \<lparr>q_id = or_else (i_id item) fresh,
      q_type = i_type item,
      q_payload = (if truthy (i_payload item) then i_payload item else JObj []),
      q_createdAt = or_else (i_createdAt item) t,
      q_error = None, q_failedAt = None\<rparr>"

definition enqueue :: "string \<Rightarrow> string \<Rightarrow> bool \<Rightarrow> int \<Rightarrow> real \<Rightarrow> oq \<Rightarrow> enqueue_arg
    \<Rightarrow> queue_item \<times> oq" where
  "enqueue fresh t onLine now rnd q item =
     (let entry = entry_of fresh t item;
          q1 = q\<lparr>qlist := qlist q @ [entry]\<rparr>
      in (entry, if onLine then scheduleFlush now rnd q1 else q1))"

text \<open>The endpoint of each kind of item; \<open>None\<close> for a type that no branch handles.\<close>

definition endpoint :: "string \<Rightarrow> string option" where
  "endpoint ty =
     (if ty = ''report.create'' then Some ''/reports''
      else if ty = ''vendor.complete'' then Some ''/reports/vendor/complete''
      else if ty = ''admin.assign'' then Some ''/reports/assign''
      else if ty = ''admin.status'' then Some ''/reports/status''
      else None)"

text \<open>A call of \<open>api\<close>: path, method and body. What awaiting it gives: a return or a throw.\<close>

type_synonym api_call = "string \<times> string \<times> json"

datatype call_result = Returned | Threw err

text \<open>
  The loop of \<open>flush\<close> from index \<open>i\<close>: the calls issued, in order, and the index and
  thrown value at which the loop broke, if it did. \<open>res i\<close> is what the call for the
  item at index \<open>i\<close> gives.
\<close>

function flush_loop :: "(nat \<Rightarrow> call_result) \<Rightarrow> queue_item list \<Rightarrow> nat \<Rightarrow> api_call list
    \<Rightarrow> api_call list \<times> (nat \<times> err) option" where
  "flush_loop res xs i calls =
     (if i < length xs then
        (let item = xs ! i in
         case endpoint (q_type item) of
           None \<Rightarrow> flush_loop res xs (Suc i) calls
         | Some path \<Rightarrow>
             (case res i of
                Returned \<Rightarrow> flush_loop res xs (Suc i) (calls @ [(path, ''POST'', q_payload item)])
              | Threw e \<Rightarrow> (calls @ [(path, ''POST'', q_payload item)], Some (i, e))))
      else (calls, None))"
  by pat_completeness auto
termination
  by (relation "measure (\<lambda>(res, xs, i, calls). length xs - i)") auto

declare flush_loop.simps [simp del]

text \<open>
  What the environment supplies to one call of \<open>flush\<close>: the argument \<open>force\<close>;
  \<open>navigator.onLine\<close> at the start, in the \<open>catch\<close> block and at the end; what each call
  of \<open>api\<close> gives; \<open>Date.now()\<close> and \<open>Math.random()\<close> for \<open>scheduleFlush\<close>; \<open>now()\<close> for
  \<open>failedAt\<close>.
\<close>

record flush_env =
  force :: bool
  onLine_start :: bool
  onLine_fail :: bool
  onLine_end :: bool
  results :: "nat \<Rightarrow> call_result"
  f_now :: int
  f_random :: real
  f_now_iso :: string

text \<open>The \<open>catch\<close> block: the remaining items and \<open>failedNet\<close>.\<close>

definition on_failure :: "bool \<Rightarrow> string \<Rightarrow> queue_item list \<Rightarrow> nat \<Rightarrow> err
    \<Rightarrow> queue_item list \<times> bool" where
  "on_failure onLine t xs i e =
     (let remaining = drop i xs;
          isNet = isNetworkError onLine e
      in (if \<not> isNet
          then remaining[0 := (xs ! i)\<lparr>q_error := Some (or_else (e_message e) ''Failed''),
                                        q_failedAt := Some t\<rparr>]
          else remaining,
          isNet))"

text \<open>The end of \<open>flush\<close>, from \<open>this.list = remaining\<close> on.\<close>

definition flush_finish :: "flush_env \<Rightarrow> oq \<Rightarrow> queue_item list \<Rightarrow> bool \<Rightarrow> oq" where
  "flush_finish env q remaining failedNet =
     (let q1 = q\<lparr>qlist := remaining, flushing := False\<rparr> in
      if qlist q1 = [] then clearSchedule (q1\<lparr>retryCount := 0\<rparr>)
      else if onLine_end env \<and> failedNet
      then scheduleFlush (f_now env) (f_random env) (q1\<lparr>retryCount := min (retryCount q1 + 1) 6\<rparr>)
      else q1)"

text \<open>
  What a call of \<open>flush\<close> did: whether it reached the loop, the calls it issued, and the
  index and thrown value at which the loop broke.
\<close>

record flush_trace =
  ran :: bool
  calls :: "api_call list"
  failure :: "(nat \<times> err) option"

definition no_trace :: flush_trace where
  "no_trace = \<lparr>ran = False, calls = [], failure = None\<rparr>"

text \<open>
  \<open>flush(force)\<close>, when nothing else runs while it awaits. Notices, status display and
  the refresh of the view are left out.
\<close>

definition flush :: "flush_env \<Rightarrow> oq \<Rightarrow> oq \<times> flush_trace" where
  "flush env q =
     (if flushing q then (q, no_trace)
      else
        (let q1 = (if force env then clearSchedule (q\<lparr>retryCount := 0\<rparr>) else q) in
         if \<not> onLine_start env then (scheduleFlush (f_now env) (f_random env) q1, no_trace)
         else if qlist q1 = [] then (q1, no_trace)
         else
           (let q2 = q1\<lparr>flushing := True\<rparr>;
                (cs, brk) = flush_loop (results env) (qlist q2) 0 [];
                (remaining, failedNet) =
                  (case brk of
                     None \<Rightarrow> ([], False)
                   | Some (i, e) \<Rightarrow> on_failure (onLine_fail env) (f_now_iso env) (qlist q2) i e)
            in (flush_finish env q2 remaining failedNet,
                \<lparr>ran = True, calls = cs, failure = brk\<rparr>))))"

text \<open>The callback of the timer: \<open>this._timer = null; this.flush()\<close>.\<close>

definition timer_fires :: "flush_env \<Rightarrow> oq \<Rightarrow> oq \<times> flush_trace" where
  "timer_fires env q = flush (env\<lparr>force := False\<rparr>) (q\<lparr>timer := None\<rparr>)"

subsection \<open>Runs of the queue\<close>

text \<open>
  The call of \<open>api\<close> that the loop makes for an item, if it makes one, and what
  processing the item at index \<open>k\<close> gives: a return when no call is made.
\<close>

definition call_of :: "queue_item \<Rightarrow> api_call option" where
  "call_of x = map_option (\<lambda>path. (path, ''POST'', q_payload x)) (endpoint (q_type x))"

definition outcome_at :: "(nat \<Rightarrow> call_result) \<Rightarrow> queue_item list \<Rightarrow> nat \<Rightarrow> call_result" where
  "outcome_at res xs k = (case endpoint (q_type (xs ! k)) of None \<Rightarrow> Returned | Some p \<Rightarrow> res k)"

text \<open>An item without the annotation that a failed flush attaches.\<close>

definition strip :: "queue_item \<Rightarrow> queue_item" where
  "strip x = x\<lparr>q_error := None, q_failedAt := None\<rparr>"

text \<open>
  The number of items that a flush got past, counted from the head of the list it
  started with: all of them when the loop did not break, and the index of the break
  otherwise.
\<close>

definition passed :: "oq \<Rightarrow> flush_trace \<Rightarrow> nat" where
  "passed q tr =
     (if ran tr then (case failure tr of None \<Rightarrow> length (qlist q) | Some (i, e) \<Rightarrow> i) else 0)"

text \<open>
  What happens to the queue, one call after the other: a call of \<open>enqueue\<close>, a call of
  \<open>flush\<close>, the timer going off. A history keeps, beside the object, the entries
  enqueued so far in their order and the number of items that flushes got past.
\<close>

datatype action =
    Enqueue string string bool int real enqueue_arg
  | Flush flush_env
  | TimerFires flush_env

record history =
  h_q :: oq
  h_entries :: "queue_item list"
  h_passed :: nat

fun act :: "history \<Rightarrow> action \<Rightarrow> history" where
  "act h (Enqueue fresh t onLine now rnd item) =
     h\<lparr>h_q := snd (enqueue fresh t onLine now rnd (h_q h) item),
        h_entries := h_entries h @ [fst (enqueue fresh t onLine now rnd (h_q h) item)]\<rparr>"
| "act h (Flush env) =
     h\<lparr>h_q := fst (flush env (h_q h)),
        h_passed := h_passed h + passed (h_q h) (snd (flush env (h_q h)))\<rparr>"
| "act h (TimerFires env) =
     h\<lparr>h_q := fst (timer_fires env (h_q h)),
        h_passed := h_passed h + passed (h_q h\<lparr>timer := None\<rparr>) (snd (timer_fires env (h_q h)))\<rparr>"

definition run :: "action list \<Rightarrow> history" where
  "run acts = foldl act \<lparr>h_q = oq_init [], h_entries = [], h_passed = 0\<rparr> acts"

subsection \<open>Flushes that overlap\<close>

text \<open>
  \<open>flush\<close> is an asynchronous function: an invocation runs until it awaits a call of
  \<open>api\<close>, and other handlers of the event loop run before the call completes. An
  invocation that waits is described by its local variables: the loop index and the item
  taken from the list at that index. The system is the queue object together with the
  invocations of \<open>flush\<close> that wait.
\<close>

record frame =
  f_index :: nat
  f_item :: queue_item

record sys =
  s_q :: oq
  waiting :: "frame list"

text \<open>
  The loop from index \<open>i\<close> up to the next item for which a call is made; items without
  an endpoint take no call. \<open>None\<close> when the loop ends.
\<close>

function next_call :: "queue_item list \<Rightarrow> nat \<Rightarrow> nat option" where
  "next_call xs i =
     (if i < length xs then
        (case endpoint (q_type (xs ! i)) of
           None \<Rightarrow> next_call xs (Suc i)
         | Some path \<Rightarrow> Some i)
      else None)"
  by pat_completeness auto
termination
  by (relation "measure (\<lambda>(xs, i). length xs - i)") auto

declare next_call.simps [simp del]

text \<open>A call of \<open>flush\<close>, up to its first \<open>await\<close> or its return.\<close>

definition enter_flush :: "flush_env \<Rightarrow> sys \<Rightarrow> sys" where
  "enter_flush env s =
     (let q = s_q s in
      if flushing q then s
      else
        (let q1 = (if force env then clearSchedule (q\<lparr>retryCount := 0\<rparr>) else q) in
         if \<not> onLine_start env then s\<lparr>s_q := scheduleFlush (f_now env) (f_random env) q1\<rparr>
         else if qlist q1 = [] then s\<lparr>s_q := q1\<rparr>
         else
           (let q2 = q1\<lparr>flushing := True\<rparr> in
            case next_call (qlist q2) 0 of
              Some j \<Rightarrow> \<lparr>s_q = q2, waiting = waiting s @ [\<lparr>f_index = j, f_item = qlist q2 ! j\<rparr>]\<rparr>
            | None \<Rightarrow> s\<lparr>s_q := flush_finish env q2 [] False\<rparr>)))"

text \<open>
  The \<open>catch\<close> block of a waiting invocation: \<open>this.list.slice(i)\<close> of the list as it is
  now, with the item the invocation holds written at index 0 when the failure is not a
  network error.
\<close>

definition catch_block :: "bool \<Rightarrow> string \<Rightarrow> queue_item list \<Rightarrow> frame \<Rightarrow> err
    \<Rightarrow> queue_item list \<times> bool" where
  "catch_block onLine t xs fr e =
     (let remaining = drop (f_index fr) xs;
          isNet = isNetworkError onLine e;
          annotated = (f_item fr)\<lparr>q_error := Some (or_else (e_message e) ''Failed''),
                                   q_failedAt := Some t\<rparr>
      in (if \<not> isNet
          then (if remaining = [] then [annotated] else remaining[0 := annotated])
          else remaining,
          isNet))"

text \<open>
  The call that the \<open>n\<close>-th waiting invocation awaits completes, and the invocation runs
  on to its next \<open>await\<close> or to its end.
\<close>

definition resume :: "nat \<Rightarrow> call_result \<Rightarrow> flush_env \<Rightarrow> sys \<Rightarrow> sys" where
  "resume n r env s =
     (if n < length (waiting s) then
        (let fr = waiting s ! n;
             q = s_q s;
             others = take n (waiting s) @ drop (Suc n) (waiting s)
         in case r of
              Returned \<Rightarrow>
                (case next_call (qlist q) (Suc (f_index fr)) of
                   Some j \<Rightarrow> s\<lparr>waiting := (waiting s)[n := \<lparr>f_index = j, f_item = qlist q ! j\<rparr>]\<rparr>
                 | None \<Rightarrow> \<lparr>s_q = flush_finish env q [] False, waiting = others\<rparr>)
            | Threw e \<Rightarrow>
                (let (remaining, failedNet) =
                       catch_block (onLine_fail env) (f_now_iso env) (qlist q) fr e
                 in \<lparr>s_q = flush_finish env q remaining failedNet, waiting = others\<rparr>))
      else s)"

text \<open>
  What the event loop runs: a handler calls \<open>flush\<close>; an awaited call completes; a
  handler calls \<open>enqueue\<close>; the timer goes off.
\<close>

datatype event =
    CallsFlush flush_env
  | CallCompletes nat call_result flush_env
  | CallsEnqueue string string bool int real enqueue_arg
  | TimerGoesOff flush_env

fun sys_step :: "sys \<Rightarrow> event \<Rightarrow> sys" where
  "sys_step s (CallsFlush env) = enter_flush env s"
| "sys_step s (CallCompletes n r env) = resume n r env s"
| "sys_step s (CallsEnqueue fresh t onLine now rnd item) =
     s\<lparr>s_q := snd (enqueue fresh t onLine now rnd (s_q s) item)\<rparr>"
| "sys_step s (TimerGoesOff env) =
     (if timer (s_q s) \<noteq> None
      then enter_flush (env\<lparr>force := False\<rparr>) (s\<lparr>s_q := (s_q s)\<lparr>timer := None\<rparr>\<rparr>)
      else s)"

definition sys_run :: "queue_item list \<Rightarrow> event list \<Rightarrow> sys" where
  "sys_run xs evs = foldl sys_step \<lparr>s_q = oq_init xs, waiting = []\<rparr> evs"

text \<open>
  The events of a flush that nothing interrupts: the call of \<open>flush\<close>, then the
  completion of each call it awaits, with the result that the environment gives for the
  index of the item, up to the first throw. The second function goes through the items
  from index \<open>i\<close> on.
\<close>

fun completions :: "(nat \<Rightarrow> call_result) \<Rightarrow> flush_env \<Rightarrow> queue_item list \<Rightarrow> nat \<Rightarrow> event list" where
  "completions res env [] i = []"
| "completions res env (x # xs) i =
     (case endpoint (q_type x) of
        None \<Rightarrow> completions res env xs (Suc i)
      | Some path \<Rightarrow>
          (case res i of
             Returned \<Rightarrow> CallCompletes 0 Returned env # completions res env xs (Suc i)
           | Threw e \<Rightarrow> [CallCompletes 0 (Threw e) env]))"

definition uninterrupted :: "flush_env \<Rightarrow> oq \<Rightarrow> event list" where
  "uninterrupted env q = CallsFlush env # completions (results env) env (qlist q) 0"

subsection \<open>Examples\<close>

text \<open>
  Results of calls given as a list, one for each index, with a return beyond its end;
  an entry of a given identifier and type; and the readings of a device that stays
  online, with a result for each call.
\<close>

definition from_list :: "call_result list \<Rightarrow> nat \<Rightarrow> call_result" where
  "from_list rs k = (if k < length rs then rs ! k else Returned)"

definition example_item :: "string \<Rightarrow> string \<Rightarrow> queue_item" where
  "example_item ident ty =
     entry_of ident ''2024-05-01T10:00:00.000Z''
       \<lparr>i_id = [], i_type = ty, i_payload = JObj [(''reportId'', JStr ident)], i_createdAt = []\<rparr>"

definition online_env :: "bool \<Rightarrow> call_result list \<Rightarrow> flush_env" where
  "online_env f rs =
     \<lparr>force = f, onLine_start = True, onLine_fail = True, onLine_end = True,
      results = from_list rs, f_now = 1714557600000, f_random = 1 / 2,
      f_now_iso = ''2024-05-01T10:05:00.000Z''\<rparr>"

text \<open>
  The arguments that \<open>enqueueReport(payload)\<close> and \<open>enqueueAction(type, payload)\<close> pass to
  \<open>enqueue\<close>.
\<close>

definition enqueueReport_arg :: "json \<Rightarrow> enqueue_arg" where
  "enqueueReport_arg payload =
     \<lparr>i_id = [], i_type = ''report.create'', i_payload = payload, i_createdAt = []\<rparr>"

definition enqueueAction_arg :: "string \<Rightarrow> json \<Rightarrow> enqueue_arg" where
  "enqueueAction_arg ty payload =
     \<lparr>i_id = [], i_type = ty, i_payload = payload, i_createdAt = []\<rparr>"

text \<open>
  A run: three items are enqueued offline; a flush gets past the first and fails on the
  second with a rejection; a second flush fails on it at transport level; a fourth item
  is enqueued; a third flush gets past the second item and fails on the third at
  transport level.
\<close>

definition example_run :: "action list" where
  "example_run =
     [Enqueue ''q_1'' ''2024-05-01T10:00:00.000Z'' False 1714557600000 (1 / 2)
        (enqueueReport_arg (JObj [(''title'', JStr ''Bin'')])),
      Enqueue ''q_2'' ''2024-05-01T10:01:00.000Z'' False 1714557660000 (1 / 2)
        (enqueueAction_arg ''admin.assign'' (JObj [(''reportId'', JStr ''r7'')])),
      Enqueue ''q_3'' ''2024-05-01T10:02:00.000Z'' False 1714557720000 (1 / 2)
        (enqueueAction_arg ''admin.status'' (JObj [(''reportId'', JStr ''r7'')])),
      Flush (online_env False [Returned, Threw \<lparr>e_name = ''Error'', e_message = ''Vendor not found''\<rparr>]),
      Flush (online_env True [Threw \<lparr>e_name = ''TypeError'', e_message = ''Failed to fetch''\<rparr>]),
      Enqueue ''q_4'' ''2024-05-01T10:09:00.000Z'' True 1714558140000 (1 / 2)
        (enqueueReport_arg (JObj [(''title'', JStr ''Bag'')])),
      Flush (online_env False [Returned, Threw \<lparr>e_name = ''TypeError'', e_message = ''Failed to fetch''\<rparr>])]"

section \<open>Properties of the cache\<close>

lemma written_snoc: "written (ws @ [w]) = do_write (written ws) w"
  by (simp add: written_def)

text \<open>
  \<open>Date.now()\<close> counts the milliseconds since the epoch and does not read 0 on a running
  device, so the records in the store carry a stamp that is not 0, and the guard
  \<open>rec.t &&\<close> of \<open>Cache.get\<close> lets the age test through.
\<close>

lemma written_stamped:
  assumes "\<forall>w \<in> set ws. w_now w \<noteq> 0" and "written ws key = Some r"
  shows "rec_t r \<noteq> 0"
  using assms
proof (induction ws arbitrary: r rule: rev_induct)
  case Nil
  then show ?case by (simp add: written_def)
next
  case (snoc w ws)
  show ?case
  proof (cases "key = w_key w")
    case True
    with snoc.prems show ?thesis
      by (auto simp: written_snoc do_write_def Cache_set_def)
  next
    case False
    with snoc.prems have "written ws key = Some r"
      by (simp add: written_snoc do_write_def Cache_set_def)
    with snoc show ?thesis
      by simp
  qed
qed

text \<open>
  C7: on every store that calls of \<open>Cache.set\<close> have written, \<open>Cache.get(key, maxAge)\<close>
  returns absent when no record exists for the key or when \<open>now - timestamp > maxAge\<close>,
  and the stored value otherwise: the value at ages \<open>maxAge - 1\<close> and \<open>maxAge\<close>, absent at
  age \<open>maxAge + 1\<close>. \<open>maxAge\<close> defaults to 10 minutes. \<open>Cache.set(key, value)\<close> overwrites the
  record of the key with the value and the current time and leaves the other keys
  alone, so that a value set at time \<open>t\<close> is read back up to age \<open>maxAge\<close> and is absent
  after it.
\<close>

theorem C7_cache_contract:
  assumes "\<forall>w \<in> set ws. w_now w \<noteq> 0" and "t \<noteq> 0"
  shows
  "(written ws key = None \<longrightarrow> Cache_get (written ws) now key maxAge = JNull)
   \<and> (written ws key = Some r \<and> now - rec_t r > maxAge
        \<longrightarrow> Cache_get (written ws) now key maxAge = JNull)
   \<and> (written ws key = Some r \<and> \<not> now - rec_t r > maxAge
        \<longrightarrow> Cache_get (written ws) now key maxAge = rec_v r)
   \<and> (written ws key = Some r \<and> now - rec_t r = maxAge - 1
        \<longrightarrow> Cache_get (written ws) now key maxAge = rec_v r)
   \<and> (written ws key = Some r \<and> now - rec_t r = maxAge
        \<longrightarrow> Cache_get (written ws) now key maxAge = rec_v r)
   \<and> (written ws key = Some r \<and> now - rec_t r = maxAge + 1
        \<longrightarrow> Cache_get (written ws) now key maxAge = JNull)
   \<and> Cache_get_default (written ws) now key = Cache_get (written ws) now key (10 * 60 * 1000)
   \<and> Cache_set store t key val key = Some \<lparr>rec_t = t, rec_v = val\<rparr>
   \<and> (key' \<noteq> key \<longrightarrow> Cache_set store t key val key' = store key')
   \<and> Cache_get (Cache_set store t key val) now key maxAge
       = (if now - t > maxAge then JNull else val)"
proof -
  have stamped: "rec_t r \<noteq> 0" if "written ws key = Some r"
    using assms(1) that by (rule written_stamped)
  have c1: "Cache_get (written ws) now key maxAge = JNull" if "written ws key = None"
    using that by (simp add: Cache_get_def)
  have c2: "Cache_get (written ws) now key maxAge = JNull"
    if "written ws key = Some r" "now - rec_t r > maxAge"
    using that stamped by (simp add: Cache_get_def)
  have c3: "Cache_get (written ws) now key maxAge = rec_v r"
    if "written ws key = Some r" "\<not> now - rec_t r > maxAge"
    using that by (simp add: Cache_get_def)
  have c7: "Cache_get_default (written ws) now key = Cache_get (written ws) now key (10 * 60 * 1000)"
    by (simp add: Cache_get_default_def Cache_maxAge_default_def)
  have c8: "Cache_set store t key val key = Some \<lparr>rec_t = t, rec_v = val\<rparr>"
    "key' \<noteq> key \<longrightarrow> Cache_set store t key val key' = store key'"
    by (simp_all add: Cache_set_def)
  have c10: "Cache_get (Cache_set store t key val) now key maxAge
       = (if now - t > maxAge then JNull else val)"
    using assms(2) by (simp add: Cache_get_def Cache_set_def)
  have c4: "Cache_get (written ws) now key maxAge = rec_v r"
    if "written ws key = Some r" "now - rec_t r = maxAge - 1"
    using that by (intro c3) simp_all
  have c5: "Cache_get (written ws) now key maxAge = rec_v r"
    if "written ws key = Some r" "now - rec_t r = maxAge"
    using that by (intro c3) simp_all
  have c6: "Cache_get (written ws) now key maxAge = JNull"
    if "written ws key = Some r" "now - rec_t r = maxAge + 1"
    using that by (intro c2) simp_all
  show ?thesis
    using c1 c2 c3 c4 c5 c6 c7 c8 c10 by blast
qed

text \<open>
  The rows of the vendors, stored at one time and read 10 minutes less a millisecond,
  10 minutes, and 10 minutes and a millisecond later.
\<close>

theorem C7_cache_contract_witness:
  "Cache_get (written []) 1714557600000 ''vendors'' 600000 = JNull
   \<and> Cache_get (written [\<lparr>w_now = 1714557600000, w_key = ''vendors'', w_val = JStr ''rows''\<rparr>])
        1714558199999 ''vendors'' 600000 = JStr ''rows''
   \<and> Cache_get (written [\<lparr>w_now = 1714557600000, w_key = ''vendors'', w_val = JStr ''rows''\<rparr>])
        1714558200000 ''vendors'' 600000 = JStr ''rows''
   \<and> Cache_get (written [\<lparr>w_now = 1714557600000, w_key = ''vendors'', w_val = JStr ''rows''\<rparr>])
        1714558200001 ''vendors'' 600000 = JNull
   \<and> Cache_get (Cache_set Map.empty 1714557600000 ''vendors'' (JStr ''rows''))
        1714558200001 ''vendors'' 600000 = JNull"
proof -
  let ?ws = "[\<lparr>w_now = 1714557600000, w_key = ''vendors'', w_val = JStr ''rows''\<rparr>]"
  let ?r = "\<lparr>rec_t = 1714557600000, rec_v = JStr ''rows''\<rparr>"
  have h0: "\<forall>w \<in> set ([] :: cache_write list). w_now w \<noteq> 0"
    by simp
  have h1: "\<forall>w \<in> set ?ws. w_now w \<noteq> 0" and t: "(1714557600000::int) \<noteq> 0"
    by simp_all
  have e: "written [] ''vendors'' = None"
    by (simp add: written_def)
  have r: "written ?ws ''vendors'' = Some ?r"
    by (simp add: written_def do_write_def Cache_set_def)
  have a: "(1714558199999::int) - rec_t ?r = 600000 - 1" "(1714558200000::int) - rec_t ?r = 600000"
    "(1714558200001::int) - rec_t ?r = 600000 + 1"
    by simp_all
  have w0: "Cache_get (written []) 1714557600000 ''vendors'' 600000 = JNull"
    using C7_cache_contract [OF h0 t, where key = "''vendors''"] e by blast
  have w1: "Cache_get (written ?ws) 1714558199999 ''vendors'' 600000 = rec_v ?r"
    using C7_cache_contract [OF h1 t, where key = "''vendors''" and r = ?r
        and now = 1714558199999 and maxAge = 600000] r a(1) by blast
  have w2: "Cache_get (written ?ws) 1714558200000 ''vendors'' 600000 = rec_v ?r"
    using C7_cache_contract [OF h1 t, where key = "''vendors''" and r = ?r
        and now = 1714558200000 and maxAge = 600000] r a(2) by blast
  have w3: "Cache_get (written ?ws) 1714558200001 ''vendors'' 600000 = JNull"
    using C7_cache_contract [OF h1 t, where key = "''vendors''" and r = ?r
        and now = 1714558200001 and maxAge = 600000] r a(3) by blast
  have w4: "Cache_get (Cache_set Map.empty 1714557600000 ''vendors'' (JStr ''rows''))
        1714558200001 ''vendors'' 600000
      = (if (1714558200001::int) - 1714557600000 > 600000 then JNull else JStr ''rows'')"
    using C7_cache_contract [OF h1 t, where key = "''vendors''" and store = Map.empty
        and val = "JStr ''rows''" and now = 1714558200001 and maxAge = 600000] by blast
  show ?thesis
    using w0 w1 w2 w3 w4 by simp
qed

section \<open>Properties of the request function\<close>

text \<open>
  C3, as stated, fails: \<open>api\<close> reads the cache through \<open>Cache.get(cacheKey, cacheMaxAgeMs)\<close>
  on both paths, so the age limit applies offline as it does online. Here the device is
  offline, the record of \<open>reports.me\<close> is 300001 ms old under a limit of 300000 ms, and
  the request fails at transport level: the call throws and the cached rows are not
  returned.
\<close>

theorem C3_counterexample:
  "outcome (api
     \<lparr>onLine_entry = False, onLine_catch = False, onLine_done = False,
      now_entry = 301001, now_after = 301002, now_iso = [],
      fetched = Rejected \<lparr>e_name = ''TypeError'', e_message = ''Failed to fetch''\<rparr>\<rparr>
     \<lparr>cache = [''reports.me'' \<mapsto> \<lparr>rec_t = 1000, rec_v = JStr ''rows''\<rparr>],
      lastFromCache = False, lastSyncAt = None\<rparr>
     ''/reports/me'' ''GET'' JNull
     \<lparr>cacheKey = ''reports.me'', cacheMaxAgeMs = 300000\<rparr>)
   = Inl \<lparr>e_name = ''TypeError'', e_message = ''Failed to fetch''\<rparr>"
  by (simp add: api_def Cache_get_def maxAge_of_def Let_def)

text \<open>
  C3, amended: offline reads are served from the cache under the same age limit as
  online reads. For a \<open>GET\<close> with a cache key: when connectivity is down at entry and
  \<open>Cache.get(cacheKey, cacheMaxAgeMs)\<close> is not null (a record is there, its value is not
  null, and its timestamp is 0 or its age is at most \<open>cacheMaxAgeMs\<close>), \<open>api\<close> returns that
  value without issuing the request; a record older than \<open>cacheMaxAgeMs\<close> is not
  returned, and when the request then fails the error is thrown; when the request fails
  and the failure is a network error, \<open>api\<close> returns \<open>Cache.get(cacheKey, cacheMaxAgeMs)\<close>
  if that is not null, and throws the error otherwise.
\<close>

theorem C3_offline_read:
  assumes key: "cacheKey options \<noteq> []"
  shows
  "(\<not> onLine_entry env
      \<and> Cache_get (cache st) (now_entry env) (cacheKey options) (maxAge_of options) \<noteq> JNull
    \<longrightarrow> outcome (api env st path ''GET'' body options)
          = Inr (Cache_get (cache st) (now_entry env) (cacheKey options) (maxAge_of options))
        \<and> \<not> issued (api env st path ''GET'' body options)
        \<and> lastFromCache (state_after (api env st path ''GET'' body options)))
   \<and> (\<not> onLine_entry env \<and> cache st (cacheKey options) = Some r \<and> rec_v r \<noteq> JNull
        \<and> (rec_t r = 0 \<or> now_entry env - rec_t r \<le> maxAge_of options)
    \<longrightarrow> outcome (api env st path ''GET'' body options) = Inr (rec_v r)
        \<and> \<not> issued (api env st path ''GET'' body options))
   \<and> (cache st (cacheKey options) = Some r \<and> rec_t r \<noteq> 0
        \<and> now_entry env - rec_t r > maxAge_of options
        \<and> now_after env - rec_t r > maxAge_of options
        \<and> fetched env = Rejected e
    \<longrightarrow> outcome (api env st path ''GET'' body options) = Inl e
        \<and> issued (api env st path ''GET'' body options))
   \<and> (fetched env = Rejected e \<and> isNetworkError (onLine_catch env) e
        \<and> (onLine_entry env
            \<or> Cache_get (cache st) (now_entry env) (cacheKey options) (maxAge_of options) = JNull)
        \<and> Cache_get (cache st) (now_after env) (cacheKey options) (maxAge_of options) \<noteq> JNull
    \<longrightarrow> outcome (api env st path ''GET'' body options)
          = Inr (Cache_get (cache st) (now_after env) (cacheKey options) (maxAge_of options))
        \<and> lastFromCache (state_after (api env st path ''GET'' body options)))
   \<and> (fetched env = Rejected e
        \<and> (onLine_entry env
            \<or> Cache_get (cache st) (now_entry env) (cacheKey options) (maxAge_of options) = JNull)
        \<and> (\<not> isNetworkError (onLine_catch env) e
            \<or> Cache_get (cache st) (now_after env) (cacheKey options) (maxAge_of options) = JNull)
    \<longrightarrow> outcome (api env st path ''GET'' body options) = Inl e)"
  using key by (simp add: api_def Cache_get_def Let_def)

theorem C3_offline_read_witness:
  "''reports.me'' \<noteq> []
   \<and> outcome (api
       \<lparr>onLine_entry = False, onLine_catch = False, onLine_done = False,
        now_entry = 200000, now_after = 200001, now_iso = [],
        fetched = Rejected \<lparr>e_name = ''TypeError'', e_message = ''Failed to fetch''\<rparr>\<rparr>
       \<lparr>cache = [''reports.me'' \<mapsto> \<lparr>rec_t = 1000, rec_v = JStr ''rows''\<rparr>],
        lastFromCache = False, lastSyncAt = None\<rparr>
       ''/reports/me'' ''GET'' JNull
       \<lparr>cacheKey = ''reports.me'', cacheMaxAgeMs = 300000\<rparr>) = Inr (JStr ''rows'')
   \<and> outcome (api
       \<lparr>onLine_entry = True, onLine_catch = True, onLine_done = True,
        now_entry = 200000, now_after = 200001, now_iso = [],
        fetched = Rejected \<lparr>e_name = ''TypeError'', e_message = ''Failed to fetch''\<rparr>\<rparr>
       \<lparr>cache = [''reports.me'' \<mapsto> \<lparr>rec_t = 1000, rec_v = JStr ''rows''\<rparr>],
        lastFromCache = False, lastSyncAt = None\<rparr>
       ''/reports/me'' ''GET'' JNull
       \<lparr>cacheKey = ''reports.me'', cacheMaxAgeMs = 300000\<rparr>) = Inr (JStr ''rows'')
   \<and> outcome (api
       \<lparr>onLine_entry = False, onLine_catch = False, onLine_done = False,
        now_entry = 400000, now_after = 400001, now_iso = [],
        fetched = Rejected \<lparr>e_name = ''TypeError'', e_message = ''Failed to fetch''\<rparr>\<rparr>
       \<lparr>cache = [''reports.me'' \<mapsto> \<lparr>rec_t = 1000, rec_v = JStr ''rows''\<rparr>],
        lastFromCache = False, lastSyncAt = None\<rparr>
       ''/reports/me'' ''GET'' JNull
       \<lparr>cacheKey = ''reports.me'', cacheMaxAgeMs = 300000\<rparr>)
     = Inl \<lparr>e_name = ''TypeError'', e_message = ''Failed to fetch''\<rparr>"
  using
    C3_offline_read [of "\<lparr>cacheKey = ''reports.me'', cacheMaxAgeMs = 300000\<rparr>"
       "\<lparr>onLine_entry = False, onLine_catch = False, onLine_done = False,
        now_entry = 200000, now_after = 200001, now_iso = [],
        fetched = Rejected \<lparr>e_name = ''TypeError'', e_message = ''Failed to fetch''\<rparr>\<rparr>"
       "\<lparr>cache = [''reports.me'' \<mapsto> \<lparr>rec_t = 1000, rec_v = JStr ''rows''\<rparr>],
        lastFromCache = False, lastSyncAt = None\<rparr>"
       "''/reports/me''" JNull "\<lparr>rec_t = 1000, rec_v = JStr ''rows''\<rparr>"]
    C3_offline_read [of "\<lparr>cacheKey = ''reports.me'', cacheMaxAgeMs = 300000\<rparr>"
       "\<lparr>onLine_entry = True, onLine_catch = True, onLine_done = True,
        now_entry = 200000, now_after = 200001, now_iso = [],
        fetched = Rejected \<lparr>e_name = ''TypeError'', e_message = ''Failed to fetch''\<rparr>\<rparr>"
       "\<lparr>cache = [''reports.me'' \<mapsto> \<lparr>rec_t = 1000, rec_v = JStr ''rows''\<rparr>],
        lastFromCache = False, lastSyncAt = None\<rparr>"
       "''/reports/me''" JNull _ "\<lparr>e_name = ''TypeError'', e_message = ''Failed to fetch''\<rparr>"]
    C3_offline_read [of "\<lparr>cacheKey = ''reports.me'', cacheMaxAgeMs = 300000\<rparr>"
       "\<lparr>onLine_entry = False, onLine_catch = False, onLine_done = False,
        now_entry = 400000, now_after = 400001, now_iso = [],
        fetched = Rejected \<lparr>e_name = ''TypeError'', e_message = ''Failed to fetch''\<rparr>\<rparr>"
       "\<lparr>cache = [''reports.me'' \<mapsto> \<lparr>rec_t = 1000, rec_v = JStr ''rows''\<rparr>],
        lastFromCache = False, lastSyncAt = None\<rparr>"
       "''/reports/me''" JNull "\<lparr>rec_t = 1000, rec_v = JStr ''rows''\<rparr>"
       "\<lparr>e_name = ''TypeError'', e_message = ''Failed to fetch''\<rparr>"]
  by (simp add: maxAge_of_def Cache_get_def isNetworkError_def)

section \<open>Properties of the token check\<close>

text \<open>
  C5: \<open>isJwtExpired(token, skew)\<close> reports a token expired when it has no second part,
  when \<open>atob\<close> or \<open>JSON.parse\<close> throws on it, and when its payload has no \<open>exp\<close>. For a
  payload with a numeric \<open>exp\<close> it reports expired exactly when \<open>exp - skew \<le> now\<close>, in
  epoch seconds: for every non-zero \<open>exp\<close>, and for every \<open>exp\<close> when the clock and the skew
  are not negative (an \<open>exp\<close> of 0 is falsy and reported expired, which is what the
  comparison gives then). In particular a token with \<open>exp = now - 1\<close> is expired and one
  with \<open>exp = now + skew + 1\<close> is valid. The skew of the callers is 60.
\<close>

theorem C5_token_expiry:
  "(length (split_on CHR ''.'' token) < 2 \<longrightarrow> isJwtExpired P now token skew)
   \<and> (atob P (padded_segment (split_on CHR ''.'' token ! 1)) = None
        \<longrightarrow> isJwtExpired P now token skew)
   \<and> (atob P (padded_segment (split_on CHR ''.'' token ! 1)) = Some js \<and> JSON_parse P js = None
        \<longrightarrow> isJwtExpired P now token skew)
   \<and> (get_prop (decodeJwtPayload P token) ''exp'' = JNull \<longrightarrow> isJwtExpired P now token skew)
   \<and> (get_prop (decodeJwtPayload P token) ''exp'' = JNum e \<and> e \<noteq> 0
        \<longrightarrow> isJwtExpired P now token skew = (e - skew \<le> now div 1000))
   \<and> (get_prop (decodeJwtPayload P token) ''exp'' = JNum e \<and> 0 \<le> now \<and> 0 \<le> skew
        \<longrightarrow> isJwtExpired P now token skew = (e - skew \<le> now div 1000))
   \<and> (get_prop (decodeJwtPayload P token) ''exp'' = JNum (now div 1000 - 1) \<and> 0 \<le> skew
        \<longrightarrow> isJwtExpired P now token skew)
   \<and> (get_prop (decodeJwtPayload P token) ''exp'' = JNum (now div 1000 + skew + 1)
        \<and> 0 \<le> now \<and> 0 \<le> skew
        \<longrightarrow> \<not> isJwtExpired P now token skew)"
proof -
  let ?p = "decodeJwtPayload P token"
  let ?x = "isJwtExpired P now token skew"
  have null: "?x" if "?p = JNull"
    using that by (simp add: isJwtExpired_def)
  have c1: "?x" if "length (split_on CHR ''.'' token) < 2"
    using that by (intro null) (simp add: decodeJwtPayload_def Let_def)
  have c2: "?x" if "atob P (padded_segment (split_on CHR ''.'' token ! 1)) = None"
    using that by (intro null) (simp add: decodeJwtPayload_def Let_def)
  have c3: "?x"
    if "atob P (padded_segment (split_on CHR ''.'' token ! 1)) = Some js" "JSON_parse P js = None"
    using that by (intro null) (simp add: decodeJwtPayload_def Let_def)
  have c4: "?x" if "get_prop ?p ''exp'' = JNull"
    using that by (simp add: isJwtExpired_def)
  have obj: "truthy ?p" if "get_prop ?p ''exp'' = JNum x" for x
    using that by (cases ?p) simp_all
  have num: "?x = (x = 0 \<or> x - skew \<le> now div 1000)" if "get_prop ?p ''exp'' = JNum x" for x
    using that obj [OF that] by (simp add: isJwtExpired_def ToNumber_def Let_def)
  have nonneg: "0 \<le> now div 1000" if "0 \<le> now"
    using that by (simp add: pos_imp_zdiv_nonneg_iff)
  have c5: "?x = (e - skew \<le> now div 1000)" if "get_prop ?p ''exp'' = JNum e" "e \<noteq> 0"
    using that by (simp add: num)
  have c6: "?x = (e - skew \<le> now div 1000)"
    if "get_prop ?p ''exp'' = JNum e" "0 \<le> now" "0 \<le> skew"
    using that nonneg by (auto simp: num)
  have c7: "?x" if "get_prop ?p ''exp'' = JNum (now div 1000 - 1)" "0 \<le> skew"
    using that by (simp add: num)
  have c8: "\<not> ?x"
    if "get_prop ?p ''exp'' = JNum (now div 1000 + skew + 1)" "0 \<le> now" "0 \<le> skew"
    using that nonneg by (simp add: num)
  show ?thesis
    using c1 c2 c3 c4 c5 c6 c7 c8 by blast
qed

text \<open>
  The example token carries \<open>exp = 1700000000\<close>: with a skew of 60 it is valid at second
  1699999939 and expired from second 1699999940 on.
\<close>

theorem C5_token_expiry_witness:
  "isJwtExpired example_platform 1700000100000 ''no-dots'' 60
   \<and> isJwtExpired example_platform 1700000100000 ''a.b.c'' 60
   \<and> \<not> isJwtExpired example_platform 1699999939000 example_token 60
   \<and> isJwtExpired example_platform 1699999940000 example_token 60
   \<and> isJwtExpired example_platform 1700000001000 example_token 60
   \<and> get_prop (decodeJwtPayload example_platform example_token) ''exp'' = JNum 1700000000"
proof -
  have d: "get_prop (decodeJwtPayload example_platform example_token) ''exp'' = JNum 1700000000"
    by (simp add: decodeJwtPayload_def example_platform_def example_token_def padded_segment_def
        replace_char_def)
  have s1: "length (split_on CHR ''.'' ''no-dots'') < 2"
    by simp
  have s2: "atob example_platform (padded_segment (split_on CHR ''.'' ''a.b.c'' ! 1)) = None"
    by (simp add: example_platform_def padded_segment_def replace_char_def)
  show ?thesis
    using d s1 s2
      C5_token_expiry [of "''no-dots''" example_platform 1700000100000 60]
      C5_token_expiry [of "''a.b.c''" example_platform 1700000100000 60]
      C5_token_expiry [of example_token example_platform 1699999939000 60 _ 1700000000]
      C5_token_expiry [of example_token example_platform 1699999940000 60 _ 1700000000]
      C5_token_expiry [of example_token example_platform 1700000001000 60 _ 1700000000]
    by simp
qed

section \<open>Properties of the offline accounts\<close>

lemma take_filter_distinct:
  "distinct xs \<Longrightarrow> take n (filter (\<lambda>x. x \<noteq> k) (take (Suc n) xs)) = take n (filter (\<lambda>x. x \<noteq> k) xs)"
proof (induction xs arbitrary: n)
  case Nil
  then show ?case by simp
next
  case (Cons x xs)
  show ?case
  proof (cases "x = k")
    case True
    with Cons.prems have "k \<notin> set xs" by simp
    then have "filter (\<lambda>x. x \<noteq> k) xs = xs" "filter (\<lambda>x. x \<noteq> k) (take n xs) = take n xs"
      by (auto simp: filter_id_conv dest: in_set_takeD)
    with True show ?thesis by simp
  next
    case False
    show ?thesis
    proof (cases n)
      case 0
      then show ?thesis by simp
    next
      case (Suc m)
      with False Cons show ?thesis by simp
    qed
  qed
qed

lemma set_mru: "set (mru ks) = set ks"
  by (induction ks) auto

lemma distinct_mru: "distinct (mru ks)"
  by (induction ks) (auto simp: set_mru)

lemma remember_keys:
  "login_key P l = Some k \<Longrightarrow>
     acct_keys (remember P st l) = take 5 (k # filter (\<lambda>x. x \<noteq> k) (acct_keys st))"
  by (auto simp: login_key_def remember_def rememberSession_def acct_keys_def Let_def
      take_map filter_map comp_def split: option.splits if_splits)

lemma remember_skip:
  "login_key P l = None \<Longrightarrow> offlineAccounts (remember P st l) = offlineAccounts st"
  by (auto simp: login_key_def remember_def rememberSession_def Let_def
      split: option.splits if_splits)

lemma map_filter_snoc:
  "List.map_filter f (xs @ [x]) = List.map_filter f xs @ (case f x of None \<Rightarrow> [] | Some y \<Rightarrow> [y])"
  by (simp add: List.map_filter_def split: option.splits)

lemma run_logins_snoc: "run_logins P st (ls @ [l]) = remember P (run_logins P st ls) l"
  by (simp add: run_logins_def)

lemma run_logins_keys:
  assumes "offlineAccounts st = []"
  shows "acct_keys (run_logins P st ls) = take 5 (mru (rev (List.map_filter (login_key P) ls)))"
proof (induction ls rule: rev_induct)
  case Nil
  then show ?case using assms by (simp add: run_logins_def acct_keys_def List.map_filter_def)
next
  case (snoc l ls)
  show ?case
  proof (cases "login_key P l")
    case None
    then show ?thesis
      using snoc by (simp add: run_logins_snoc map_filter_snoc acct_keys_def remember_skip)
  next
    case (Some k)
    let ?M = "mru (rev (List.map_filter (login_key P) ls))"
    have "acct_keys (run_logins P st (ls @ [l])) = take 5 (k # filter (\<lambda>x. x \<noteq> k) (take 5 ?M))"
      using Some snoc by (simp add: run_logins_snoc remember_keys)
    also have "\<dots> = k # take 4 (filter (\<lambda>x. x \<noteq> k) (take (Suc 4) ?M))"
      by (simp add: eval_nat_numeral)
    also have "\<dots> = k # take 4 (filter (\<lambda>x. x \<noteq> k) ?M)"
      by (simp only: take_filter_distinct [OF distinct_mru])
    also have "\<dots> = take 5 (mru (rev (List.map_filter (login_key P) (ls @ [l]))))"
      using Some by (simp add: map_filter_snoc eval_nat_numeral)
    finally show ?thesis .
  qed
qed

lemma length_filter_neq_distinct:
  "distinct ks \<Longrightarrow> k \<in> set ks \<Longrightarrow> Suc (length (filter (\<lambda>x. x \<noteq> k) ks)) = length ks"
proof (induction ks)
  case Nil
  then show ?case by simp
next
  case (Cons x ks)
  show ?case
  proof (cases "x = k")
    case True
    with Cons.prems have "filter (\<lambda>x. x \<noteq> k) ks = ks"
      by (auto simp: filter_id_conv)
    with True show ?thesis by simp
  next
    case False
    with Cons show ?thesis by simp
  qed
qed

lemma remember_distinct:
  assumes "distinct (acct_keys st)"
  shows "distinct (acct_keys (remember P st l))"
proof (cases "login_key P l")
  case None
  then show ?thesis using assms by (simp add: acct_keys_def remember_skip)
next
  case (Some k)
  have "distinct (k # filter (\<lambda>x. x \<noteq> k) (acct_keys st))"
    using assms by simp
  then show ?thesis
    unfolding remember_keys [OF Some] by (rule distinct_take)
qed




text \<open>
  C6: after every call of \<open>rememberSession\<close> that files an account (a session and a token
  are given and the derived role and login identifier are not empty) the list has at
  most 5 entries, the new key stands first and the other entries follow in their former
  order; keys that were distinct stay distinct. Remembering a key that is in the list
  moves its entry to the front and keeps the length; remembering a new key when the list
  holds 5 entries drops the last one. From the empty list, after any run of calls, the
  list has at most 5 entries with distinct keys, and its keys are the first 5 of the keys
  used in recency order, latest first.
\<close>

theorem C6_account_list:
  "length (offlineAccounts (run_logins P empty_vault ls)) \<le> 5
   \<and> distinct (acct_keys (run_logins P empty_vault ls))
   \<and> acct_keys (run_logins P empty_vault ls)
       = take 5 (mru (rev (List.map_filter (login_key P) ls)))
   \<and> (login_key P l = Some k
        \<longrightarrow> length (offlineAccounts (remember P st l)) \<le> 5
          \<and> acct_keys (remember P st l) = take 5 (k # filter (\<lambda>x. x \<noteq> k) (acct_keys st))
          \<and> hd (acct_keys (remember P st l)) = k)
   \<and> (login_key P l = Some k \<and> distinct (acct_keys st)
        \<longrightarrow> distinct (acct_keys (remember P st l)))
   \<and> (login_key P l = Some k \<and> distinct (acct_keys st) \<and> length (offlineAccounts st) \<le> 5
        \<and> k \<in> set (acct_keys st)
        \<longrightarrow> length (offlineAccounts (remember P st l)) = length (offlineAccounts st)
          \<and> acct_keys (remember P st l) = k # filter (\<lambda>x. x \<noteq> k) (acct_keys st))
   \<and> (login_key P l = Some k \<and> distinct (acct_keys st) \<and> length (offlineAccounts st) = 5
        \<and> k \<notin> set (acct_keys st)
        \<longrightarrow> length (offlineAccounts (remember P st l)) = 5
          \<and> acct_keys (remember P st l) = k # butlast (acct_keys st))"
proof -
  have len: "length (offlineAccounts x) = length (acct_keys x)" for x
    by (simp add: acct_keys_def)
  have e: "offlineAccounts empty_vault = []"
    by (simp add: empty_vault_def)
  have g3: "acct_keys (run_logins P empty_vault ls)
      = take 5 (mru (rev (List.map_filter (login_key P) ls)))"
    by (rule run_logins_keys [OF e])
  have g1: "length (offlineAccounts (run_logins P empty_vault ls)) \<le> 5"
    unfolding len g3 by simp
  have g2: "distinct (acct_keys (run_logins P empty_vault ls))"
    unfolding g3 by (rule distinct_take [OF distinct_mru])
  have s1: "length (offlineAccounts (remember P st l)) \<le> 5
          \<and> acct_keys (remember P st l) = take 5 (k # filter (\<lambda>x. x \<noteq> k) (acct_keys st))
          \<and> hd (acct_keys (remember P st l)) = k" if "login_key P l = Some k"
    unfolding len remember_keys [OF that] by (simp add: eval_nat_numeral)
  have s2: "distinct (acct_keys (remember P st l))" if "distinct (acct_keys st)"
    using that by (rule remember_distinct)
  have s3: "length (offlineAccounts (remember P st l)) = length (offlineAccounts st)
          \<and> acct_keys (remember P st l) = k # filter (\<lambda>x. x \<noteq> k) (acct_keys st)"
    if k: "login_key P l = Some k" and d: "distinct (acct_keys st)"
      and n: "length (offlineAccounts st) \<le> 5" and m: "k \<in> set (acct_keys st)"
  proof -
    have "length (k # filter (\<lambda>x. x \<noteq> k) (acct_keys st)) = length (acct_keys st)"
      using length_filter_neq_distinct [OF d m] by simp
    moreover from this n have "take 5 (k # filter (\<lambda>x. x \<noteq> k) (acct_keys st))
        = k # filter (\<lambda>x. x \<noteq> k) (acct_keys st)"
      by (simp add: len)
    ultimately show ?thesis
      unfolding len remember_keys [OF k] by simp
  qed
  have s4: "length (offlineAccounts (remember P st l)) = 5
          \<and> acct_keys (remember P st l) = k # butlast (acct_keys st)"
    if k: "login_key P l = Some k" and n: "length (offlineAccounts st) = 5"
      and m: "k \<notin> set (acct_keys st)"
  proof -
    have "filter (\<lambda>x. x \<noteq> k) (acct_keys st) = acct_keys st"
      using m by (auto simp: filter_id_conv)
    then show ?thesis
      using n unfolding len remember_keys [OF k]
      by (simp add: eval_nat_numeral butlast_conv_take)
  qed
  show ?thesis
    using g1 g2 g3 s1 s2 s3 s4 by blast
qed

theorem C6_account_list_witness:
  "acct_keys (run_logins example_platform empty_vault example_logins)
     = [ustr ''user:eve@x.io'', ustr ''user:dee@x.io'', ustr ''user:cy@x.io'',
        ustr ''user:bob@x.io'', ustr ''user:ann@x.io'']
   \<and> acct_keys (remember example_platform (run_logins example_platform empty_vault example_logins)
         (userLogin (ustr ''Fay@x.io'') (ustr ''u6'') (ustr ''Fay'') example_token ''t6''))
     = [ustr ''user:fay@x.io'', ustr ''user:eve@x.io'', ustr ''user:dee@x.io'',
        ustr ''user:cy@x.io'', ustr ''user:bob@x.io'']
   \<and> acct_keys (remember example_platform (run_logins example_platform empty_vault example_logins)
         (userLogin (ustr ''Cy@x.io'') (ustr ''u3'') (ustr ''Cy'') example_token ''t6''))
     = [ustr ''user:cy@x.io'', ustr ''user:eve@x.io'', ustr ''user:dee@x.io'',
        ustr ''user:bob@x.io'', ustr ''user:ann@x.io'']
   \<and> length (offlineAccounts (remember example_platform
         (run_logins example_platform empty_vault example_logins)
         (userLogin (ustr ''Cy@x.io'') (ustr ''u3'') (ustr ''Cy'') example_token ''t6''))) = 5"
proof -
  let ?st = "run_logins example_platform empty_vault example_logins"
  let ?fay = "userLogin (ustr ''Fay@x.io'') (ustr ''u6'') (ustr ''Fay'') example_token ''t6''"
  let ?cy = "userLogin (ustr ''Cy@x.io'') (ustr ''u3'') (ustr ''Cy'') example_token ''t6''"
  have k0: "acct_keys ?st
     = [ustr ''user:eve@x.io'', ustr ''user:dee@x.io'', ustr ''user:cy@x.io'',
        ustr ''user:bob@x.io'', ustr ''user:ann@x.io'']"
    by code_simp
  have n0: "length (offlineAccounts ?st) = 5"
    using k0 by (simp add: acct_keys_def flip: length_map [of a_key])
  have f: "login_key example_platform ?fay = Some (ustr ''user:fay@x.io'')"
    by code_simp
  have c: "login_key example_platform ?cy = Some (ustr ''user:cy@x.io'')"
    by code_simp
  have d: "distinct [ustr ''user:eve@x.io'', ustr ''user:dee@x.io'', ustr ''user:cy@x.io'',
        ustr ''user:bob@x.io'', ustr ''user:ann@x.io'']"
    by code_simp
  have m1: "ustr ''user:fay@x.io'' \<notin> set [ustr ''user:eve@x.io'', ustr ''user:dee@x.io'',
        ustr ''user:cy@x.io'', ustr ''user:bob@x.io'', ustr ''user:ann@x.io'']"
    by code_simp
  have m2: "ustr ''user:cy@x.io'' \<in> set [ustr ''user:eve@x.io'', ustr ''user:dee@x.io'',
        ustr ''user:cy@x.io'', ustr ''user:bob@x.io'', ustr ''user:ann@x.io'']"
    by simp
  have fl: "filter (\<lambda>x. x \<noteq> ustr ''user:cy@x.io'') [ustr ''user:eve@x.io'', ustr ''user:dee@x.io'',
        ustr ''user:cy@x.io'', ustr ''user:bob@x.io'', ustr ''user:ann@x.io'']
      = [ustr ''user:eve@x.io'', ustr ''user:dee@x.io'', ustr ''user:bob@x.io'', ustr ''user:ann@x.io'']"
    by code_simp
  note fay = C6_account_list [where P = example_platform and ls = example_logins
        and l = ?fay and k = "ustr ''user:fay@x.io''" and st = ?st]
  note cy = C6_account_list [where P = example_platform and ls = example_logins
        and l = ?cy and k = "ustr ''user:cy@x.io''" and st = ?st]
  have r1: "acct_keys (remember example_platform ?st ?fay)
      = ustr ''user:fay@x.io'' # butlast (acct_keys ?st)"
    using fay f n0 d m1 unfolding k0 by blast
  have r2: "length (offlineAccounts (remember example_platform ?st ?cy)) = length (offlineAccounts ?st)
      \<and> acct_keys (remember example_platform ?st ?cy)
         = ustr ''user:cy@x.io'' # filter (\<lambda>x. x \<noteq> ustr ''user:cy@x.io'') (acct_keys ?st)"
    using cy c n0 d m2 unfolding k0 by blast
  show ?thesis
    using k0 r1 r2 n0 fl by simp
qed














section \<open>Properties of the offline queue\<close>

subsection \<open>The loop\<close>

lemma map_filter_Cons:
  "List.map_filter f (x # xs) = (case f x of None \<Rightarrow> [] | Some y \<Rightarrow> [y]) @ List.map_filter f xs"
  by (simp add: List.map_filter_def split: option.splits)

lemma all_from_Suc:
  "P i \<Longrightarrow> \<forall>k. Suc i \<le> k \<and> k < j \<longrightarrow> P k \<Longrightarrow> \<forall>k. i \<le> k \<and> k < j \<longrightarrow> P k"
  by (metis Suc_leI le_neq_implies_less)

lemma loop_break_sound:
  "snd (flush_loop res xs i cs) = Some (j, e) \<Longrightarrow>
     i \<le> j \<and> j < length xs \<and> outcome_at res xs j = Threw e
     \<and> (\<forall>k. i \<le> k \<and> k < j \<longrightarrow> outcome_at res xs k = Returned)"
proof (induction res xs i cs rule: flush_loop.induct)
  case (1 res xs i cs)
  show ?case
  proof (cases "i < length xs")
    case False
    with "1.prems" show ?thesis
      by (simp add: flush_loop.simps [of res xs i cs])
  next
    case il: True
    show ?thesis
    proof (cases "endpoint (q_type (xs ! i))")
      case None
      then have ok: "outcome_at res xs i = Returned"
        by (simp add: outcome_at_def)
      have "snd (flush_loop res xs (Suc i) cs) = Some (j, e)"
        using "1.prems" il None by (simp add: flush_loop.simps [of res xs i cs])
      from "1.IH"(1) [OF il refl None this] ok show ?thesis
        using all_from_Suc [of "\<lambda>k. outcome_at res xs k = Returned" i j] by simp
    next
      case (Some path)
      show ?thesis
      proof (cases "res i")
        case Returned
        then have ok: "outcome_at res xs i = Returned"
          by (simp add: outcome_at_def Some)
        have "snd (flush_loop res xs (Suc i) (cs @ [(path, ''POST'', q_payload (xs ! i))]))
            = Some (j, e)"
          using "1.prems" il Some Returned by (simp add: flush_loop.simps [of res xs i cs])
        from "1.IH"(2) [OF il refl Some Returned this] ok show ?thesis
          using all_from_Suc [of "\<lambda>k. outcome_at res xs k = Returned" i j] by simp
      next
        case (Threw e')
        then have "outcome_at res xs i = Threw e'"
          by (simp add: outcome_at_def Some)
        moreover have "j = i \<and> e = e'"
          using "1.prems" il Some Threw by (simp add: flush_loop.simps [of res xs i cs])
        ultimately show ?thesis
          using il by auto
      qed
    qed
  qed
qed

lemma loop_first_failure:
  "i \<le> j \<Longrightarrow> j < length xs \<Longrightarrow> outcome_at res xs j = Threw e \<Longrightarrow>
   (\<forall>k. i \<le> k \<and> k < j \<longrightarrow> outcome_at res xs k = Returned) \<Longrightarrow>
     flush_loop res xs i cs
       = (cs @ List.map_filter call_of (take (Suc j - i) (drop i xs)), Some (j, e))"
proof (induction res xs i cs rule: flush_loop.induct)
  case (1 res xs i cs)
  from "1.prems" have il: "i < length xs" by simp
  have dr: "drop i xs = xs ! i # drop (Suc i) xs"
    using il by (simp add: Cons_nth_drop_Suc)
  show ?case
  proof (cases "i = j")
    case True
    have "Suc j - i = Suc 0"
      using True by simp
    then have tk1: "take (Suc j - i) (drop i xs) = [xs ! i]"
      by (subst dr) simp
    from "1.prems"(3) True obtain path where
      ep: "endpoint (q_type (xs ! i)) = Some path" and ri: "res i = Threw e"
      by (auto simp: outcome_at_def split: option.splits)
    have fl: "flush_loop res xs i cs = (cs @ [(path, ''POST'', q_payload (xs ! i))], Some (i, e))"
      using il ep ri by (simp add: flush_loop.simps [of res xs i cs])
    have mf: "List.map_filter call_of [xs ! i] = [(path, ''POST'', q_payload (xs ! i))]"
      using ep by (simp add: List.map_filter_def call_of_def)
    show ?thesis
      unfolding fl tk1 mf using True by simp
  next
    case False
    with "1.prems" have lt: "i < j" and ok: "outcome_at res xs i = Returned"
      by auto
    have tk: "take (Suc j - i) (drop i xs) = xs ! i # take (Suc j - Suc i) (drop (Suc i) xs)"
      using lt by (simp add: dr Suc_diff_le)
    have rest: "Suc i \<le> j" "\<forall>k. Suc i \<le> k \<and> k < j \<longrightarrow> outcome_at res xs k = Returned"
      using lt "1.prems" by auto
    show ?thesis
    proof (cases "endpoint (q_type (xs ! i))")
      case None
      then show ?thesis
        using "1.IH"(1) [OF il refl None rest(1) "1.prems"(2,3) rest(2)]
        by (simp add: flush_loop.simps [of res xs i cs] il tk map_filter_Cons call_of_def)
    next
      case (Some path)
      with ok have r: "res i = Returned"
        by (simp add: outcome_at_def)
      show ?thesis
        using "1.IH"(2) [OF il refl Some r rest(1) "1.prems"(2,3) rest(2)]
        by (simp add: flush_loop.simps [of res xs i cs] il tk map_filter_Cons call_of_def Some r)
    qed
  qed
qed

lemma loop_all_pass:
  "(\<forall>k. i \<le> k \<and> k < length xs \<longrightarrow> outcome_at res xs k = Returned) \<Longrightarrow>
     flush_loop res xs i cs = (cs @ List.map_filter call_of (drop i xs), None)"
proof (induction res xs i cs rule: flush_loop.induct)
  case (1 res xs i cs)
  show ?case
  proof (cases "i < length xs")
    case False
    then show ?thesis
      by (simp add: flush_loop.simps [of res xs i cs] List.map_filter_def)
  next
    case il: True
    have dr: "drop i xs = xs ! i # drop (Suc i) xs"
      using il by (simp add: Cons_nth_drop_Suc)
    from "1.prems" il have ok: "outcome_at res xs i = Returned"
      and rest: "\<forall>k. Suc i \<le> k \<and> k < length xs \<longrightarrow> outcome_at res xs k = Returned"
      by auto
    show ?thesis
    proof (cases "endpoint (q_type (xs ! i))")
      case None
      then show ?thesis
        using "1.IH"(1) [OF il refl None rest]
        by (simp add: flush_loop.simps [of res xs i cs] il dr map_filter_Cons call_of_def)
    next
      case (Some path)
      with ok have r: "res i = Returned"
        by (simp add: outcome_at_def)
      show ?thesis
        using "1.IH"(2) [OF il refl Some r rest]
        by (simp add: flush_loop.simps [of res xs i cs] il dr map_filter_Cons call_of_def Some r)
    qed
  qed
qed


lemma first_failure_exists:
  assumes "\<not> (\<forall>k<n. outcome_at res xs k = Returned)"
  obtains j e where "j < n" "outcome_at res xs j = Threw e"
    "\<forall>k<j. outcome_at res xs k = Returned"
proof -
  from assms have "\<exists>j. j < n \<and> outcome_at res xs j \<noteq> Returned"
    by auto
  then obtain j where j: "j < n \<and> outcome_at res xs j \<noteq> Returned"
    and least: "\<forall>k<j. \<not> (k < n \<and> outcome_at res xs k \<noteq> Returned)"
    unfolding exists_least_iff [of "\<lambda>j. j < n \<and> outcome_at res xs j \<noteq> Returned"] by blast
  from j obtain e where "outcome_at res xs j = Threw e"
    by (cases "outcome_at res xs j") auto
  moreover from j least have "\<forall>k<j. outcome_at res xs k = Returned"
    by auto
  ultimately show ?thesis
    using j that by blast
qed

lemma flush_break:
  assumes "\<not> flushing q" "onLine_start env" "j < length (qlist q)"
    and "outcome_at (results env) (qlist q) j = Threw e"
    and "\<forall>k<j. outcome_at (results env) (qlist q) k = Returned"
  shows "flush env q =
    (flush_finish env ((if force env then clearSchedule (q\<lparr>retryCount := 0\<rparr>) else q)\<lparr>flushing := True\<rparr>)
       (fst (on_failure (onLine_fail env) (f_now_iso env) (qlist q) j e))
       (snd (on_failure (onLine_fail env) (f_now_iso env) (qlist q) j e)),
     \<lparr>ran = True, calls = List.map_filter call_of (take (Suc j) (qlist q)), failure = Some (j, e)\<rparr>)"
proof -
  have "flush_loop (results env) (qlist q) 0 []
      = ([] @ List.map_filter call_of (take (Suc j - 0) (drop 0 (qlist q))), Some (j, e))"
    using assms by (intro loop_first_failure) auto
  moreover have "qlist q \<noteq> []"
    using assms(3) by auto
  ultimately show ?thesis
    using assms(1,2) by (simp add: flush_def clearSchedule_def Let_def split: prod.splits)
qed

lemma flush_pass:
  assumes "\<not> flushing q" "onLine_start env" "qlist q \<noteq> []"
    and "\<forall>k<length (qlist q). outcome_at (results env) (qlist q) k = Returned"
  shows "flush env q =
    (flush_finish env ((if force env then clearSchedule (q\<lparr>retryCount := 0\<rparr>) else q)\<lparr>flushing := True\<rparr>)
       [] False,
     \<lparr>ran = True, calls = List.map_filter call_of (qlist q), failure = None\<rparr>)"
proof -
  have "flush_loop (results env) (qlist q) 0 []
      = ([] @ List.map_filter call_of (drop 0 (qlist q)), None)"
    using assms by (intro loop_all_pass) auto
  then show ?thesis
    using assms(1,2,3) by (simp add: flush_def clearSchedule_def Let_def split: prod.splits)
qed

lemma flush_idle:
  assumes "flushing q \<or> \<not> onLine_start env \<or> qlist q = []"
  shows "snd (flush env q) = no_trace \<and> qlist (fst (flush env q)) = qlist q
     \<and> flushing (fst (flush env q)) = flushing q"
  using assms
  by (auto simp: flush_def clearSchedule_def scheduleFlush_def Let_def)

lemma qlist_flush_finish:
  "qlist (flush_finish env q remaining failedNet) = remaining"
  "\<not> flushing (flush_finish env q remaining failedNet)"
  by (auto simp: flush_finish_def clearSchedule_def scheduleFlush_def Let_def)

lemma strip_on_failure:
  "j < length xs \<Longrightarrow> map strip (fst (on_failure onl t xs j e)) = drop j (map strip xs)"
  by (auto simp: on_failure_def Let_def strip_def map_update drop_map Cons_nth_drop_Suc [symmetric]
      simp flip: drop_map)

subsection \<open>Failure of a flush\<close>

text \<open>
  C2, as stated, fails in one point: the annotation is \<open>e?.message || "Failed"\<close>, so a
  failure without a message leaves \<open>error\<close> set to \<open>Failed\<close> and not to the (empty)
  message. Here the first call throws an error with an empty message while the device
  is online.
\<close>

theorem C2_counterexample:
  "q_error (hd (qlist (fst (flush
       (online_env False [Threw \<lparr>e_name = ''Error'', e_message = []\<rparr>])
       (oq_init [example_item ''q1'' ''report.create'', example_item ''q2'' ''admin.assign''])))))
   = Some ''Failed''"
  by code_simp

text \<open>
  C2, amended: when a flush attempt fails on the item at position \<open>i\<close> (the items before
  it were processed without a throw, the call for item \<open>i\<close> throws \<open>e\<close>), processing
  stops: the calls issued are those for the items up to position \<open>i\<close>, the last one being
  the call for item \<open>i\<close>, and the new queue is the former items from position \<open>i\<close> on, in
  order. If the failure is classified as a network error the failed item is unmodified;
  otherwise it is annotated with \<open>error\<close> set to the failure message, or to \<open>Failed\<close> when
  the message is empty, and \<open>failedAt\<close> set to the current time.
\<close>

theorem C2_flush_failure:
  assumes "\<not> flushing q" and "onLine_start env"
    and "i < length (qlist q)"
    and "endpoint (q_type (qlist q ! i)) = Some path"
    and "results env i = Threw e"
    and "\<forall>k<i. endpoint (q_type (qlist q ! k)) \<noteq> None \<longrightarrow> results env k = Returned"
  shows "failure (snd (flush env q)) = Some (i, e)
    \<and> calls (snd (flush env q)) = List.map_filter call_of (take (Suc i) (qlist q))
    \<and> last (calls (snd (flush env q))) = (path, ''POST'', q_payload (qlist q ! i))
    \<and> (isNetworkError (onLine_fail env) e
         \<longrightarrow> qlist (fst (flush env q)) = drop i (qlist q))
    \<and> (\<not> isNetworkError (onLine_fail env) e
         \<longrightarrow> qlist (fst (flush env q))
             = (qlist q ! i)\<lparr>q_error := Some (if e_message e \<noteq> [] then e_message e else ''Failed''),
                               q_failedAt := Some (f_now_iso env)\<rparr>
               # drop (Suc i) (qlist q))
    \<and> \<not> flushing (fst (flush env q))"
proof -
  have thr: "outcome_at (results env) (qlist q) i = Threw e"
    using assms(4,5) by (simp add: outcome_at_def)
  have ok: "\<forall>k<i. outcome_at (results env) (qlist q) k = Returned"
    using assms(6) by (auto simp: outcome_at_def split: option.splits)
  note fl = flush_break [OF assms(1,2,3) thr ok]
  have dr: "drop i (qlist q) = qlist q ! i # drop (Suc i) (qlist q)"
    using assms(3) by (simp add: Cons_nth_drop_Suc)
  have tk: "take (Suc i) (qlist q) = take i (qlist q) @ [qlist q ! i]"
    using assms(3) by (simp add: take_Suc_conv_app_nth)
  have c3: "last (List.map_filter call_of (take (Suc i) (qlist q))) = (path, ''POST'', q_payload (qlist q ! i))"
    using assms(4) by (simp add: tk map_filter_snoc call_of_def)
  show ?thesis
    unfolding fl using c3
    by (simp add: qlist_flush_finish on_failure_def Let_def dr or_else_def)
qed

theorem C2_flush_failure_witness:
  "qlist (fst (flush
       (online_env False [Returned, Threw \<lparr>e_name = ''Error'', e_message = ''Vendor not found''\<rparr>])
       (oq_init [example_item ''q1'' ''report.create'', example_item ''q2'' ''admin.assign'',
                 example_item ''q3'' ''admin.status''])))
     = [(example_item ''q2'' ''admin.assign'')\<lparr>q_error := Some ''Vendor not found'',
           q_failedAt := Some ''2024-05-01T10:05:00.000Z''\<rparr>,
        example_item ''q3'' ''admin.status'']
   \<and> calls (snd (flush
       (online_env False [Returned, Threw \<lparr>e_name = ''Error'', e_message = ''Vendor not found''\<rparr>])
       (oq_init [example_item ''q1'' ''report.create'', example_item ''q2'' ''admin.assign'',
                 example_item ''q3'' ''admin.status''])))
     = [(''/reports'', ''POST'', JObj [(''reportId'', JStr ''q1'')]),
        (''/reports/assign'', ''POST'', JObj [(''reportId'', JStr ''q2'')])]
   \<and> qlist (fst (flush
       (online_env False [Returned, Threw \<lparr>e_name = ''TypeError'', e_message = ''Failed to fetch''\<rparr>])
       (oq_init [example_item ''q1'' ''report.create'', example_item ''q2'' ''admin.assign'',
                 example_item ''q3'' ''admin.status''])))
     = [example_item ''q2'' ''admin.assign'', example_item ''q3'' ''admin.status'']"
proof -
  let ?q = "oq_init [example_item ''q1'' ''report.create'', example_item ''q2'' ''admin.assign'',
                 example_item ''q3'' ''admin.status'']"
  let ?e1 = "\<lparr>e_name = ''Error'', e_message = ''Vendor not found''\<rparr>"
  let ?e2 = "\<lparr>e_name = ''TypeError'', e_message = ''Failed to fetch''\<rparr>"
  have q: "\<not> flushing ?q" "1 < length (qlist ?q)"
    "endpoint (q_type (qlist ?q ! 1)) = Some ''/reports/assign''"
    by (simp_all add: oq_init_def example_item_def entry_of_def endpoint_def)
  have e1: "onLine_start (online_env False [Returned, Threw ?e1])"
    "results (online_env False [Returned, Threw ?e1]) 1 = Threw ?e1"
    "\<forall>k<1. endpoint (q_type (qlist ?q ! k)) \<noteq> None
        \<longrightarrow> results (online_env False [Returned, Threw ?e1]) k = Returned"
    "\<not> isNetworkError (onLine_fail (online_env False [Returned, Threw ?e1])) ?e1"
    by (simp_all add: online_env_def from_list_def isNetworkError_def network_pattern_def
        fold_ascii_def lower_char_def)
  have e2: "onLine_start (online_env False [Returned, Threw ?e2])"
    "results (online_env False [Returned, Threw ?e2]) 1 = Threw ?e2"
    "\<forall>k<1. endpoint (q_type (qlist ?q ! k)) \<noteq> None
        \<longrightarrow> results (online_env False [Returned, Threw ?e2]) k = Returned"
    "isNetworkError (onLine_fail (online_env False [Returned, Threw ?e2])) ?e2"
    by (simp_all add: online_env_def from_list_def isNetworkError_def)
  have c: "List.map_filter call_of (take (Suc 1) (qlist ?q))
     = [(''/reports'', ''POST'', JObj [(''reportId'', JStr ''q1'')]),
        (''/reports/assign'', ''POST'', JObj [(''reportId'', JStr ''q2'')])]"
    by (simp add: oq_init_def example_item_def entry_of_def endpoint_def call_of_def
        List.map_filter_def)
  have f: "f_now_iso (online_env False [Returned, Threw ?e1]) = ''2024-05-01T10:05:00.000Z''"
    by (simp add: online_env_def)
  have d: "qlist ?q ! 1 = example_item ''q2'' ''admin.assign''"
    "drop (Suc 1) (qlist ?q) = [example_item ''q3'' ''admin.status'']"
    "drop 1 (qlist ?q) = [example_item ''q2'' ''admin.assign'', example_item ''q3'' ''admin.status'']"
    by (simp_all add: oq_init_def)
  show ?thesis
    using C2_flush_failure [OF q(1) e1(1) q(2,3) e1(2,3)] e1(4)
      C2_flush_failure [OF q(1) e2(1) q(2,3) e2(2,3)] e2(4)
    unfolding c f d by simp
qed

subsection \<open>Items without an endpoint\<close>

lemma endpoint_None_iff:
  "endpoint ty = None \<longleftrightarrow>
     ty \<notin> {''report.create'', ''vendor.complete'', ''admin.assign'', ''admin.status''}"
  by (simp add: endpoint_def)

lemma finish_overwrites:
  "flush_finish env (q\<lparr>qlist := xs\<rparr>) remaining failedNet = flush_finish env q remaining failedNet"
  by (simp add: flush_finish_def)

text \<open>
  C10: during a flush that reaches the loop, an item whose type is none of
  \<open>report.create\<close>, \<open>vendor.complete\<close>, \<open>admin.assign\<close> and \<open>admin.status\<close>, and before which
  no call throws, is taken off the queue without a call: no call belongs to it, the calls
  issued are those of the items with an endpoint up to the break, the flush gets past
  it, and a queue that holds only this item ends empty with no call at all. The object
  after the flush is the one that results when the item is replaced by an item with an
  endpoint whose call returns.
\<close>

theorem C10_unknown_type:
  assumes nf: "\<not> flushing q" and on: "onLine_start env" and k: "k < length (qlist q)"
    and unk: "q_type (qlist q ! k)
        \<notin> {''report.create'', ''vendor.complete'', ''admin.assign'', ''admin.status''}"
    and before: "\<forall>j<k. endpoint (q_type (qlist q ! j)) \<noteq> None \<longrightarrow> results env j = Returned"
  shows "call_of (qlist q ! k) = None
    \<and> calls (snd (flush env q))
        = List.map_filter call_of
            (take (case failure (snd (flush env q)) of None \<Rightarrow> length (qlist q) | Some (j, e) \<Rightarrow> Suc j)
               (qlist q))
    \<and> k < passed q (snd (flush env q))
    \<and> map strip (qlist (fst (flush env q))) = drop (passed q (snd (flush env q))) (map strip (qlist q))
    \<and> (qlist q = [qlist q ! k]
         \<longrightarrow> calls (snd (flush env q)) = [] \<and> qlist (fst (flush env q)) = []
             \<and> failure (snd (flush env q)) = None)
    \<and> (endpoint (q_type x) \<noteq> None \<and> results env k = Returned
         \<longrightarrow> fst (flush env (q\<lparr>qlist := (qlist q)[k := x]\<rparr>)) = fst (flush env q)
             \<and> failure (snd (flush env (q\<lparr>qlist := (qlist q)[k := x]\<rparr>)))
                 = failure (snd (flush env q)))"
proof -
  let ?xs = "qlist q"
  let ?res = "results env"
  have ep: "endpoint (q_type (?xs ! k)) = None"
    using unk by (simp add: endpoint_None_iff)
  then have c1: "call_of (?xs ! k) = None"
    by (simp add: call_of_def)
  have okk: "outcome_at ?res ?xs k = Returned"
    using ep by (simp add: outcome_at_def)
  have okb: "\<forall>j<k. outcome_at ?res ?xs j = Returned"
    using before by (auto simp: outcome_at_def split: option.splits)
  have ne: "?xs \<noteq> []"
    using k by auto
  have same: "outcome_at ?res (?xs[k := x]) m = outcome_at ?res ?xs m"
    if "endpoint (q_type x) \<noteq> None" "?res k = Returned" for m
    using that k okk by (cases "m = k") (auto simp: outcome_at_def split: option.splits)
  show ?thesis
  proof (cases "\<forall>m<length ?xs. outcome_at ?res ?xs m = Returned")
    case True
    note fl = flush_pass [OF nf on ne True]
    have single: "List.map_filter call_of ?xs = []" if "?xs = [?xs ! k]"
    proof -
      have "List.map_filter call_of [?xs ! k] = []"
        using c1 by (simp add: List.map_filter_def)
      with that show ?thesis by simp
    qed
    have asif: "fst (flush env (q\<lparr>qlist := ?xs[k := x]\<rparr>)) = fst (flush env q)
        \<and> failure (snd (flush env (q\<lparr>qlist := ?xs[k := x]\<rparr>))) = failure (snd (flush env q))"
      if x: "endpoint (q_type x) \<noteq> None" "?res k = Returned"
    proof -
      have "\<forall>m<length (qlist (q\<lparr>qlist := ?xs[k := x]\<rparr>)).
          outcome_at ?res (qlist (q\<lparr>qlist := ?xs[k := x]\<rparr>)) m = Returned"
        using True same [OF x] by simp
      from flush_pass [OF _ on _ this] nf ne show ?thesis
        unfolding fl by (simp add: clearSchedule_def flush_finish_def)
    qed
    have r: "calls (snd (flush env q)) = List.map_filter call_of ?xs"
      "failure (snd (flush env q)) = None" "ran (snd (flush env q))"
      "qlist (fst (flush env q)) = []"
      by (simp_all add: fl qlist_flush_finish)
    show ?thesis
      using c1 k single asif by (simp add: passed_def r)
  next
    case False
    then obtain j e where j: "j < length ?xs" and thr: "outcome_at ?res ?xs j = Threw e"
      and okj: "\<forall>m<j. outcome_at ?res ?xs m = Returned"
      by (rule first_failure_exists)
    note fl = flush_break [OF nf on j thr okj]
    have kj: "k < j"
    proof (rule ccontr)
      assume "\<not> k < j"
      then have "j = k \<or> j < k" by auto
      then show False
        using thr okk okb by auto
    qed
    have nsingle: "?xs \<noteq> [?xs ! k]"
    proof
      assume "?xs = [?xs ! k]"
      then have "length ?xs = 1"
        by (metis length_Cons list.size(3) One_nat_def)
      with j kj show False by simp
    qed
    have asif: "fst (flush env (q\<lparr>qlist := ?xs[k := x]\<rparr>)) = fst (flush env q)
        \<and> failure (snd (flush env (q\<lparr>qlist := ?xs[k := x]\<rparr>))) = failure (snd (flush env q))"
      if x: "endpoint (q_type x) \<noteq> None" "?res k = Returned"
    proof -
      let ?q' = "q\<lparr>qlist := ?xs[k := x]\<rparr>"
      have a: "\<not> flushing ?q'" "j < length (qlist ?q')"
        "outcome_at ?res (qlist ?q') j = Threw e"
        "\<forall>m<j. outcome_at ?res (qlist ?q') m = Returned"
        using nf j thr okj same [OF x] by simp_all
      have of: "on_failure (onLine_fail env) (f_now_iso env) (?xs[k := x]) j e
          = on_failure (onLine_fail env) (f_now_iso env) ?xs j e"
        using kj by (auto simp: on_failure_def drop_update_cancel Let_def)
      show ?thesis
        unfolding fl flush_break [OF a(1) on a(2,3,4)]
        by (simp add: of clearSchedule_def flush_finish_def)
    qed
    have r: "calls (snd (flush env q)) = List.map_filter call_of (take (Suc j) ?xs)"
      "failure (snd (flush env q)) = Some (j, e)" "ran (snd (flush env q))"
      "map strip (qlist (fst (flush env q))) = drop j (map strip ?xs)"
      using j by (simp_all add: fl qlist_flush_finish strip_on_failure)
    show ?thesis
      using c1 kj nsingle asif by (simp add: passed_def r)
  qed
qed

theorem C10_unknown_type_witness:
  "call_of (example_item ''q2'' ''user.note'') = None
   \<and> 1 < passed
        (oq_init [example_item ''q1'' ''report.create'', example_item ''q2'' ''user.note'',
                  example_item ''q3'' ''admin.status''])
        (snd (flush (online_env False [Returned, Threw \<lparr>e_name = ''Error'', e_message = ''no''\<rparr>])
          (oq_init [example_item ''q1'' ''report.create'', example_item ''q2'' ''user.note'',
                    example_item ''q3'' ''admin.status''])))
   \<and> calls (snd (flush (online_env False []) (oq_init [example_item ''q2'' ''user.note'']))) = []
   \<and> qlist (fst (flush (online_env False []) (oq_init [example_item ''q2'' ''user.note'']))) = []
   \<and> fst (flush (online_env False [])
        (oq_init [example_item ''q1'' ''report.create'', example_item ''q2'' ''user.note'',
                  example_item ''q3'' ''admin.status'']
         \<lparr>qlist := (qlist (oq_init [example_item ''q1'' ''report.create'',
                      example_item ''q2'' ''user.note'', example_item ''q3'' ''admin.status'']))
                    [1 := example_item ''q2'' ''admin.assign'']\<rparr>))
     = fst (flush (online_env False [])
        (oq_init [example_item ''q1'' ''report.create'', example_item ''q2'' ''user.note'',
                  example_item ''q3'' ''admin.status'']))"
proof -
  let ?q = "oq_init [example_item ''q1'' ''report.create'', example_item ''q2'' ''user.note'',
                  example_item ''q3'' ''admin.status'']"
  let ?q1 = "oq_init [example_item ''q2'' ''user.note'']"
  let ?e = "online_env False [Returned, Threw \<lparr>e_name = ''Error'', e_message = ''no''\<rparr>]"
  let ?r = "online_env False []"
  have q: "\<not> flushing ?q" "1 < length (qlist ?q)"
    "q_type (qlist ?q ! 1)
        \<notin> {''report.create'', ''vendor.complete'', ''admin.assign'', ''admin.status''}"
    "qlist ?q ! 1 = example_item ''q2'' ''user.note''"
    by (simp_all add: oq_init_def example_item_def entry_of_def)
  have q1: "\<not> flushing ?q1" "0 < length (qlist ?q1)"
    "q_type (qlist ?q1 ! 0)
        \<notin> {''report.create'', ''vendor.complete'', ''admin.assign'', ''admin.status''}"
    "qlist ?q1 = [qlist ?q1 ! 0]"
    by (simp_all add: oq_init_def example_item_def entry_of_def)
  have e: "onLine_start ?e"
    "\<forall>j<1. endpoint (q_type (qlist ?q ! j)) \<noteq> None \<longrightarrow> results ?e j = Returned"
    by (simp_all add: online_env_def from_list_def)
  have r: "onLine_start ?r"
    "\<forall>j<1. endpoint (q_type (qlist ?q ! j)) \<noteq> None \<longrightarrow> results ?r j = Returned"
    "\<forall>j<0. endpoint (q_type (qlist ?q1 ! j)) \<noteq> None \<longrightarrow> results ?r j = Returned"
    "results ?r 1 = Returned"
    by (simp_all add: online_env_def from_list_def)
  have x: "endpoint (q_type (example_item ''q2'' ''admin.assign'')) \<noteq> None"
    by (simp add: example_item_def entry_of_def endpoint_def)
  have w1: "call_of (example_item ''q2'' ''user.note'') = None
      \<and> 1 < passed ?q (snd (flush ?e ?q))"
    using C10_unknown_type [OF q(1) e(1) q(2,3) e(2), where x = "example_item ''q2'' ''admin.assign''"]
    unfolding q(4) by blast
  have w2: "calls (snd (flush ?r ?q1)) = [] \<and> qlist (fst (flush ?r ?q1)) = []"
    using C10_unknown_type [OF q1(1) r(1) q1(2,3) r(3), where x = "example_item ''q2'' ''admin.assign''"]
      q1(4) by blast
  have w3: "fst (flush ?r (?q\<lparr>qlist := (qlist ?q)[1 := example_item ''q2'' ''admin.assign'']\<rparr>))
      = fst (flush ?r ?q)"
    using C10_unknown_type [OF q(1) r(1) q(2,3) r(2), where x = "example_item ''q2'' ''admin.assign''"]
      x r(4) by blast
  show ?thesis
    using w1 w2 w3 by blast
qed

subsection \<open>Order of the queue\<close>

lemma strip_entry_of: "strip (entry_of fresh t item) = entry_of fresh t item"
  by (simp add: strip_def entry_of_def)

lemma qlist_enqueue:
  "qlist (snd (enqueue fresh t onLine now rnd q item)) = qlist q @ [entry_of fresh t item]"
  "fst (enqueue fresh t onLine now rnd q item) = entry_of fresh t item"
  "flushing (snd (enqueue fresh t onLine now rnd q item)) = flushing q"
  by (simp_all add: enqueue_def scheduleFlush_def Let_def)

lemma flush_prefix:
  assumes "\<not> flushing q"
  shows "map strip (qlist (fst (flush env q))) = drop (passed q (snd (flush env q))) (map strip (qlist q))
    \<and> passed q (snd (flush env q)) \<le> length (qlist q)
    \<and> (\<forall>k<passed q (snd (flush env q)). outcome_at (results env) (qlist q) k = Returned)
    \<and> (\<exists>rest. calls (snd (flush env q))
          = List.map_filter call_of (take (passed q (snd (flush env q))) (qlist q)) @ rest)
    \<and> \<not> flushing (fst (flush env q))"
proof (cases "\<not> onLine_start env \<or> qlist q = []")
  case True
  then show ?thesis
    using flush_idle [of q env] assms by (auto simp: passed_def no_trace_def List.map_filter_def)
next
  case False
  then have on: "onLine_start env" and ne: "qlist q \<noteq> []"
    by auto
  show ?thesis
  proof (cases "\<forall>m<length (qlist q). outcome_at (results env) (qlist q) m = Returned")
    case True
    show ?thesis
      using True by (simp add: flush_pass [OF assms on ne True] passed_def qlist_flush_finish)
  next
    case False
    then obtain j e where j: "j < length (qlist q)"
      and thr: "outcome_at (results env) (qlist q) j = Threw e"
      and okj: "\<forall>m<j. outcome_at (results env) (qlist q) m = Returned"
      by (rule first_failure_exists)
    have "take (Suc j) (qlist q) = take j (qlist q) @ [qlist q ! j]"
      using j by (simp add: take_Suc_conv_app_nth)
    then have "List.map_filter call_of (take (Suc j) (qlist q))
        = List.map_filter call_of (take j (qlist q)) @ List.map_filter call_of [qlist q ! j]"
      by (simp add: List.map_filter_def)
    then show ?thesis
      using j okj
      by (simp add: flush_break [OF assms on j thr okj] passed_def qlist_flush_finish
          strip_on_failure)
  qed
qed

lemma timer_fires_prefix:
  assumes "\<not> flushing q"
  shows "map strip (qlist (fst (timer_fires env q)))
      = drop (passed (q\<lparr>timer := None\<rparr>) (snd (timer_fires env q))) (map strip (qlist q))
    \<and> passed (q\<lparr>timer := None\<rparr>) (snd (timer_fires env q)) \<le> length (qlist q)
    \<and> \<not> flushing (fst (timer_fires env q))"
  using flush_prefix [of "q\<lparr>timer := None\<rparr>" "env\<lparr>force := False\<rparr>"] assms
  by (simp add: timer_fires_def)

lemma run_snoc: "run (acts @ [a]) = act (run acts) a"
  by (simp add: run_def)

lemma run_invariant:
  "map strip (qlist (h_q (run acts))) = drop (h_passed (run acts)) (h_entries (run acts))
   \<and> h_passed (run acts) \<le> length (h_entries (run acts))
   \<and> \<not> flushing (h_q (run acts))"
proof (induction acts rule: rev_induct)
  case Nil
  then show ?case by (simp add: run_def oq_init_def)
next
  case (snoc a acts)
  let ?h = "run acts"
  from snoc have inv: "map strip (qlist (h_q ?h)) = drop (h_passed ?h) (h_entries ?h)"
    and le: "h_passed ?h \<le> length (h_entries ?h)" and nf: "\<not> flushing (h_q ?h)"
    by auto
  from inv have len: "length (qlist (h_q ?h)) = length (h_entries ?h) - h_passed ?h"
    by (metis length_drop length_map)
  show ?case
  proof (cases a)
    case (Enqueue fresh t onLine now rnd item)
    then show ?thesis
      using inv le nf by (simp add: run_snoc qlist_enqueue strip_entry_of)
  next
    case (Flush env)
    from flush_prefix [OF nf, of env] len le inv show ?thesis
      by (simp add: run_snoc Flush add.commute) arith
  next
    case (TimerFires env)
    from timer_fires_prefix [OF nf, of env] len le inv show ?thesis
      by (simp add: run_snoc TimerFires add.commute) arith
  qed
qed

lemmas queue_eval =
  run_def example_run_def enqueue_def entry_of_def enqueueReport_arg_def enqueueAction_arg_def
  or_else_def scheduleFlush_def clearSchedule_def oq_init_def online_env_def from_list_def
  example_item_def flush_def flush_loop.simps flush_finish_def on_failure_def endpoint_def
  passed_def timer_fires_def isNetworkError_def network_pattern_def fold_ascii_def
  lower_char_def no_trace_def Let_def

text \<open>
  C1: after any run of calls of \<open>enqueue\<close> and flush attempts, whatever each call of \<open>api\<close>
  gives, the items of the queue are, up to the annotation of a failed item, the entries
  enqueued, in the order of insertion, without the first ones that flushes got past.
  \<open>enqueue\<close> appends its entry at the tail. A flush takes items off the head only: the
  queue afterwards is the former queue without the items it got past, the call of every
  such item that has an endpoint returned, and these calls were issued, in order, before
  any other.
\<close>

theorem C1_fifo:
  "map strip (qlist (h_q (run acts))) = drop (h_passed (run acts)) (h_entries (run acts))
   \<and> h_passed (run acts) \<le> length (h_entries (run acts))
   \<and> qlist (snd (enqueue fresh t onLine now rnd q item))
       = qlist q @ [fst (enqueue fresh t onLine now rnd q item)]
   \<and> (\<not> flushing q
       \<longrightarrow> map strip (qlist (fst (flush env q)))
             = drop (passed q (snd (flush env q))) (map strip (qlist q))
         \<and> passed q (snd (flush env q)) \<le> length (qlist q)
         \<and> (\<forall>k<passed q (snd (flush env q)).
               endpoint (q_type (qlist q ! k)) \<noteq> None \<longrightarrow> results env k = Returned)
         \<and> (\<exists>rest. calls (snd (flush env q))
               = List.map_filter call_of (take (passed q (snd (flush env q))) (qlist q)) @ rest))"
proof -
  have "\<forall>k<passed q (snd (flush env q)).
          endpoint (q_type (qlist q ! k)) \<noteq> None \<longrightarrow> results env k = Returned"
    if "\<not> flushing q"
    using flush_prefix [OF that, of env] by (auto simp: outcome_at_def)
  then show ?thesis
    using run_invariant [of acts] flush_prefix [of q env]
    by (simp add: qlist_enqueue)
qed

theorem C1_fifo_witness:
  "map strip (qlist (h_q (run example_run))) = drop 2 (h_entries (run example_run))
   \<and> map q_id (h_entries (run example_run)) = [''q_1'', ''q_2'', ''q_3'', ''q_4'']
   \<and> map q_id (qlist (h_q (run example_run))) = [''q_3'', ''q_4'']
   \<and> map strip (qlist (fst (flush
         (online_env False [Returned, Threw \<lparr>e_name = ''Error'', e_message = ''Vendor not found''\<rparr>])
         (oq_init [example_item ''q1'' ''report.create'', example_item ''q2'' ''admin.assign'']))))
     = drop 1 (map strip [example_item ''q1'' ''report.create'', example_item ''q2'' ''admin.assign''])"
proof -
  let ?q = "oq_init [example_item ''q1'' ''report.create'', example_item ''q2'' ''admin.assign'']"
  let ?e = "online_env False [Returned, Threw \<lparr>e_name = ''Error'', e_message = ''Vendor not found''\<rparr>]"
  have p: "h_passed (run example_run) = 2"
    by (simp add: queue_eval)
  have e: "map q_id (h_entries (run example_run)) = [''q_1'', ''q_2'', ''q_3'', ''q_4'']"
    by (simp add: queue_eval)
  have i: "map q_id (qlist (h_q (run example_run))) = [''q_3'', ''q_4'']"
    by (simp add: queue_eval)
  have q: "\<not> flushing ?q" "qlist ?q = [example_item ''q1'' ''report.create'', example_item ''q2'' ''admin.assign'']"
    by (simp_all add: oq_init_def)
  have n: "passed ?q (snd (flush ?e ?q)) = 1"
    by (simp add: queue_eval)
  have w1: "map strip (qlist (h_q (run example_run))) = drop 2 (h_entries (run example_run))"
    using C1_fifo [where acts = example_run and q = ?q and env = ?e] unfolding p by blast
  have w2: "map strip (qlist (fst (flush ?e ?q))) = drop 1 (map strip (qlist ?q))"
    using C1_fifo [where acts = example_run and q = ?q and env = ?e] q(1) unfolding n by blast
  show ?thesis
    using w1 w2 e i unfolding q(2) by blast
qed

subsection \<open>Backoff\<close>

lemma jitter_bound:
  assumes "0 \<le> (rnd::real)" "rnd < 1"
  shows "nat \<lfloor>rnd * 400\<rfloor> < 400"
proof -
  have "rnd * 400 < 400"
    using assms by simp
  then have "\<lfloor>rnd * 400\<rfloor> < 400"
    by (simp add: floor_less_iff)
  then show ?thesis
    by arith
qed

lemma scheduleFlush_arms:
  assumes "timer q = None" "qlist q \<noteq> []"
  shows "timer (scheduleFlush now rnd q)
      = Some (min 60000 (2000 * 2 ^ retryCount q) + nat \<lfloor>rnd * 400\<rfloor>)
    \<and> nextRetryAt (scheduleFlush now rnd q)
      = Some (now + int (min 60000 (2000 * 2 ^ retryCount q) + nat \<lfloor>rnd * 400\<rfloor>))
    \<and> retryCount (scheduleFlush now rnd q) = retryCount q"
  using assms by (simp add: scheduleFlush_def Let_def)

lemma retryCount_scheduleFlush [simp]: "retryCount (scheduleFlush now rnd q) = retryCount q"
  by (simp add: scheduleFlush_def Let_def)

lemma retryCount_flush_finish:
  "retryCount (flush_finish env q remaining failedNet)
     = (if remaining = [] then 0
        else if onLine_end env \<and> failedNet then min (retryCount q + 1) 6 else retryCount q)"
  by (simp add: flush_finish_def clearSchedule_def Let_def)

lemma on_failure_nonempty:
  "j < length xs \<Longrightarrow> fst (on_failure onl t xs j e) \<noteq> []
     \<and> snd (on_failure onl t xs j e) = isNetworkError onl e"
  by (auto simp: on_failure_def Let_def)

lemma retryCount_flush:
  "retryCount (fst (flush env q)) =
     (if flushing q then retryCount q
      else if \<not> onLine_start env \<or> qlist q = [] then (if force env then 0 else retryCount q)
      else (case failure (snd (flush env q)) of
              None \<Rightarrow> 0
            | Some (i, e) \<Rightarrow>
                if onLine_end env \<and> isNetworkError (onLine_fail env) e
                then min ((if force env then 0 else retryCount q) + 1) 6
                else (if force env then 0 else retryCount q)))"
proof (cases "flushing q \<or> \<not> onLine_start env \<or> qlist q = []")
  case True
  then show ?thesis
    by (auto simp: flush_def clearSchedule_def Let_def)
next
  case False
  then have nf: "\<not> flushing q" and on: "onLine_start env" and ne: "qlist q \<noteq> []"
    by auto
  show ?thesis
  proof (cases "\<forall>m<length (qlist q). outcome_at (results env) (qlist q) m = Returned")
    case True
    show ?thesis
      using nf on ne
      by (simp add: flush_pass [OF nf on ne True] retryCount_flush_finish)
  next
    case False
    then obtain j e where j: "j < length (qlist q)"
      and thr: "outcome_at (results env) (qlist q) j = Threw e"
      and okj: "\<forall>m<j. outcome_at (results env) (qlist q) m = Returned"
      by (rule first_failure_exists)
    show ?thesis
      using nf on ne on_failure_nonempty [OF j]
      by (simp add: flush_break [OF nf on j thr okj] retryCount_flush_finish clearSchedule_def)
  qed
qed

lemma retryCount_flush_le: "retryCount q \<le> 6 \<Longrightarrow> retryCount (fst (flush env q)) \<le> 6"
  by (simp add: retryCount_flush split: option.splits)

lemma retryCount_run: "retryCount (h_q (run acts)) \<le> 6"
proof (induction acts rule: rev_induct)
  case Nil
  then show ?case by (simp add: run_def oq_init_def)
next
  case (snoc a acts)
  show ?case
  proof (cases a)
    case (Enqueue fresh t onLine now rnd item)
    then show ?thesis
      using snoc by (simp add: run_snoc enqueue_def Let_def)
  next
    case (Flush env)
    then show ?thesis
      using snoc by (simp add: run_snoc retryCount_flush_le)
  next
    case (TimerFires env)
    then show ?thesis
      using snoc retryCount_flush_le [of "h_q (run acts)\<lparr>timer := None\<rparr>" "env\<lparr>force := False\<rparr>"]
      by (simp add: run_snoc timer_fires_def)
  qed
qed

text \<open>
  C4: with \<open>Math.random()\<close> in \<open>[0, 1)\<close>, whenever \<open>scheduleFlush\<close> arms the timer (none is
  armed and the queue is not empty) under the retry count \<open>n\<close>, the delay lies in
  \<open>[min(60000, 2000 * 2^n), min(60000, 2000 * 2^n) + 400)\<close>: the exponential term is
  clamped before the jitter is added; for \<open>n = 3\<close> it lies in \<open>[16000, 16400)\<close>. Otherwise
  \<open>scheduleFlush\<close> does nothing. A flush raises the retry counter only when it failed
  for network reasons, and then to \<open>min(n + 1, 6)\<close>; \<open>enqueue\<close> leaves the counter alone;
  a counter of at most 6 stays at most 6, and in every run from the initial object it is
  at most 6.
\<close>

theorem C4_backoff:
  assumes "0 \<le> rnd" and "rnd < 1"
  shows "(timer q = None \<and> qlist q \<noteq> []
      \<longrightarrow> (\<exists>ms. timer (scheduleFlush now rnd q) = Some ms
            \<and> nextRetryAt (scheduleFlush now rnd q) = Some (now + int ms)
            \<and> min 60000 (2000 * 2 ^ retryCount q) \<le> ms
            \<and> ms < min 60000 (2000 * 2 ^ retryCount q) + 400))
    \<and> (timer q = None \<and> qlist q \<noteq> [] \<and> retryCount q = 3
      \<longrightarrow> (\<exists>ms. timer (scheduleFlush now rnd q) = Some ms \<and> 16000 \<le> ms \<and> ms < 16400))
    \<and> (timer q \<noteq> None \<or> qlist q = [] \<longrightarrow> scheduleFlush now rnd q = q)
    \<and> (retryCount q < retryCount (fst (flush env q))
      \<longrightarrow> (\<exists>i e. failure (snd (flush env q)) = Some (i, e)
                \<and> isNetworkError (onLine_fail env) e)
          \<and> retryCount (fst (flush env q)) = min (retryCount q + 1) 6)
    \<and> (\<not> flushing q \<and> \<not> force env \<and> onLine_start env \<and> onLine_end env
        \<and> failure (snd (flush env q)) = Some (i, e) \<and> isNetworkError (onLine_fail env) e
      \<longrightarrow> retryCount (fst (flush env q)) = min (retryCount q + 1) 6)
    \<and> (retryCount q \<le> 6 \<longrightarrow> retryCount (fst (flush env q)) \<le> 6)
    \<and> retryCount (snd (enqueue fresh t onLine now rnd q item)) = retryCount q
    \<and> retryCount (h_q (run acts)) \<le> 6"
proof -
  note jb = jitter_bound [OF assms]
  have c1: "\<exists>ms. timer (scheduleFlush now rnd q) = Some ms
            \<and> nextRetryAt (scheduleFlush now rnd q) = Some (now + int ms)
            \<and> min 60000 (2000 * 2 ^ retryCount q) \<le> ms
            \<and> ms < min 60000 (2000 * 2 ^ retryCount q) + 400"
    if "timer q = None" "qlist q \<noteq> []"
    using scheduleFlush_arms [OF that, of now rnd] jb by simp
  have c2: "\<exists>ms. timer (scheduleFlush now rnd q) = Some ms \<and> 16000 \<le> ms \<and> ms < 16400"
    if "timer q = None" "qlist q \<noteq> []" "retryCount q = 3"
    using scheduleFlush_arms [OF that(1,2), of now rnd] jb that(3) by simp
  have c3: "scheduleFlush now rnd q = q" if "timer q \<noteq> None \<or> qlist q = []"
    using that by (auto simp: scheduleFlush_def)
  have c4: "(\<exists>i e. failure (snd (flush env q)) = Some (i, e)
                \<and> isNetworkError (onLine_fail env) e)
          \<and> retryCount (fst (flush env q)) = min (retryCount q + 1) 6"
    if "retryCount q < retryCount (fst (flush env q))"
    using that unfolding retryCount_flush [of env q]
    by (auto split: if_splits option.splits)
  have c5: "retryCount (fst (flush env q)) = min (retryCount q + 1) 6"
    if "\<not> flushing q" "\<not> force env" "onLine_start env" "onLine_end env"
      "failure (snd (flush env q)) = Some (i, e)" "isNetworkError (onLine_fail env) e"
  proof -
    have "qlist q \<noteq> []"
    proof
      assume "qlist q = []"
      then have "snd (flush env q) = no_trace"
        using flush_idle [of q env] by simp
      with that(5) show False
        by (simp add: no_trace_def)
    qed
    with that show ?thesis
      by (simp add: retryCount_flush [of env q])
  qed
  have c6: "retryCount (fst (flush env q)) \<le> 6" if "retryCount q \<le> 6"
    using that by (rule retryCount_flush_le)
  have c7: "retryCount (snd (enqueue fresh t onLine now rnd q item)) = retryCount q"
    by (simp add: enqueue_def Let_def)
  show ?thesis
    using c1 c2 c3 c4 c5 c6 c7 retryCount_run [of acts] by blast
qed

theorem C4_backoff_witness:
  "(0::real) \<le> 1 / 2 \<and> (1 / 2 :: real) < 1
   \<and> timer (scheduleFlush 1714557600000 (1 / 2)
        \<lparr>qlist = [example_item ''q1'' ''report.create''], flushing = False, retryCount = 3,
         nextRetryAt = None, timer = None\<rparr>) = Some 16200
   \<and> (\<exists>ms. timer (scheduleFlush 1714557600000 (1 / 2)
        \<lparr>qlist = [example_item ''q1'' ''report.create''], flushing = False, retryCount = 3,
         nextRetryAt = None, timer = None\<rparr>) = Some ms \<and> 16000 \<le> ms \<and> ms < 16400)
   \<and> retryCount (fst (flush
        (online_env False [Threw \<lparr>e_name = ''TypeError'', e_message = ''Failed to fetch''\<rparr>])
        \<lparr>qlist = [example_item ''q1'' ''report.create''], flushing = False, retryCount = 3,
         nextRetryAt = None, timer = None\<rparr>)) = 4
   \<and> timer (fst (flush
        (online_env False [Threw \<lparr>e_name = ''TypeError'', e_message = ''Failed to fetch''\<rparr>])
        \<lparr>qlist = [example_item ''q1'' ''report.create''], flushing = False, retryCount = 3,
         nextRetryAt = None, timer = None\<rparr>)) = Some 32200"
proof -
  let ?q = "\<lparr>qlist = [example_item ''q1'' ''report.create''], flushing = False, retryCount = 3,
         nextRetryAt = None, timer = None\<rparr>"
  let ?e = "online_env False [Threw \<lparr>e_name = ''TypeError'', e_message = ''Failed to fetch''\<rparr>]"
  have r: "(0::real) \<le> 1 / 2" "(1 / 2 :: real) < 1"
    by simp_all
  have q: "timer ?q = None \<and> qlist ?q \<noteq> [] \<and> retryCount ?q = 3"
    by simp
  have t: "timer (scheduleFlush 1714557600000 (1 / 2) ?q) = Some 16200"
    by (simp add: scheduleFlush_def)
  have f: "failure (snd (flush ?e ?q))
      = Some (0, \<lparr>e_name = ''TypeError'', e_message = ''Failed to fetch''\<rparr>)"
    by (simp add: queue_eval)
  have e: "\<not> flushing ?q" "\<not> force ?e" "onLine_start ?e" "onLine_end ?e"
    "isNetworkError (onLine_fail ?e) \<lparr>e_name = ''TypeError'', e_message = ''Failed to fetch''\<rparr>"
    by (simp_all add: online_env_def isNetworkError_def)
  have t2: "timer (fst (flush ?e ?q)) = Some 32200"
    by (simp add: queue_eval)
  have w1: "\<exists>ms. timer (scheduleFlush 1714557600000 (1 / 2) ?q) = Some ms \<and> 16000 \<le> ms \<and> ms < 16400"
    using C4_backoff [OF r, where q = ?q and now = 1714557600000 and env = ?e] q by blast
  have w2: "retryCount (fst (flush ?e ?q)) = min (retryCount ?q + 1) 6"
    using C4_backoff [OF r, where q = ?q and now = 1714557600000 and env = ?e and i = 0
        and e = "\<lparr>e_name = ''TypeError'', e_message = ''Failed to fetch''\<rparr>"] e f
    by blast
  show ?thesis
    using r t t2 w1 w2 by simp
qed

subsection \<open>Mutual exclusion\<close>

lemma flushing_scheduleFlush [simp]: "flushing (scheduleFlush now rnd q) = flushing q"
  by (simp add: scheduleFlush_def Let_def)

lemma flushing_clearSchedule [simp]: "flushing (clearSchedule q) = flushing q"
  by (simp add: clearSchedule_def)

lemma enter_flush_inv:
  assumes "length (waiting s) \<le> 1" "flushing (s_q s) \<longleftrightarrow> waiting s \<noteq> []"
  shows "length (waiting (enter_flush env s)) \<le> 1
    \<and> (flushing (s_q (enter_flush env s)) \<longleftrightarrow> waiting (enter_flush env s) \<noteq> [])"
  using assms
  by (auto simp: enter_flush_def Let_def qlist_flush_finish split: option.splits)

lemma resume_inv:
  assumes "length (waiting s) \<le> 1" "flushing (s_q s) \<longleftrightarrow> waiting s \<noteq> []"
  shows "length (waiting (resume n r env s)) \<le> 1
    \<and> (flushing (s_q (resume n r env s)) \<longleftrightarrow> waiting (resume n r env s) \<noteq> [])"
proof (cases "n < length (waiting s)")
  case False
  then show ?thesis using assms by (simp add: resume_def)
next
  case True
  with assms(1) have n: "n = 0" and w: "length (waiting s) = 1"
    by auto
  then obtain fr where fr: "waiting s = [fr]"
    by (cases "waiting s") auto
  show ?thesis
    using assms(2)
    by (auto simp: resume_def Let_def fr n qlist_flush_finish
        split: call_result.splits option.splits prod.splits)
qed

lemma sys_run_snoc: "sys_run xs (evs @ [ev]) = sys_step (sys_run xs evs) ev"
  by (simp add: sys_run_def)

lemma sys_run_inv:
  "length (waiting (sys_run xs evs)) \<le> 1
   \<and> (flushing (s_q (sys_run xs evs)) \<longleftrightarrow> waiting (sys_run xs evs) \<noteq> [])"
proof (induction evs rule: rev_induct)
  case Nil
  then show ?case by (simp add: sys_run_def oq_init_def)
next
  case (snoc ev evs)
  let ?s = "sys_run xs evs"
  from snoc have a: "length (waiting ?s) \<le> 1" and b: "flushing (s_q ?s) \<longleftrightarrow> waiting ?s \<noteq> []"
    by auto
  show ?case
  proof (cases ev)
    case (CallsFlush env)
    then show ?thesis
      using enter_flush_inv [OF a b] by (simp add: sys_run_snoc)
  next
    case (CallCompletes n r env)
    then show ?thesis
      using resume_inv [OF a b] by (simp add: sys_run_snoc)
  next
    case (CallsEnqueue fresh t onLine now rnd item)
    then show ?thesis
      using a b by (simp add: sys_run_snoc qlist_enqueue)
  next
    case (TimerGoesOff env)
    let ?s' = "?s\<lparr>s_q := (s_q ?s)\<lparr>timer := None\<rparr>\<rparr>"
    have "length (waiting ?s') \<le> 1" "flushing (s_q ?s') \<longleftrightarrow> waiting ?s' \<noteq> []"
      using a b by simp_all
    from enter_flush_inv [OF this] a b TimerGoesOff show ?thesis
      by (simp add: sys_run_snoc)
  qed
qed

lemma timer_flush_finish:
  "timer (flush_finish env q remaining failedNet) =
     (if remaining = [] then None
      else if onLine_end env \<and> failedNet \<and> timer q = None
      then Some (min 60000 (2000 * 2 ^ min (retryCount q + 1) 6) + nat \<lfloor>f_random env * 400\<rfloor>)
      else timer q)"
  by (simp add: flush_finish_def clearSchedule_def scheduleFlush_def Let_def)

lemmas sys_eval =
  sys_run_def enter_flush_def resume_def catch_block_def next_call.simps queue_eval

text \<open>
  C8, as stated, fails in its last part: the flush in progress schedules a further flush
  only after a failure for network reasons. Here a flush waits for the call of the only
  item when a second, forced call of \<open>flush\<close> arrives and is dropped; the awaited call then
  fails with a rejection. The item remains, no flush is in progress, and no timer
  is armed.
\<close>

theorem C8_counterexample:
  "waiting (sys_run [example_item ''q1'' ''admin.assign''] [CallsFlush (online_env False [])]) \<noteq> []
   \<and> qlist (s_q (sys_run [example_item ''q1'' ''admin.assign'']
        [CallsFlush (online_env False []), CallsFlush (online_env True []),
         CallCompletes 0 (Threw \<lparr>e_name = ''Error'', e_message = ''Vendor not found''\<rparr>)
           (online_env False [])])) \<noteq> []
   \<and> waiting (sys_run [example_item ''q1'' ''admin.assign'']
        [CallsFlush (online_env False []), CallsFlush (online_env True []),
         CallCompletes 0 (Threw \<lparr>e_name = ''Error'', e_message = ''Vendor not found''\<rparr>)
           (online_env False [])]) = []
   \<and> timer (s_q (sys_run [example_item ''q1'' ''admin.assign'']
        [CallsFlush (online_env False []), CallsFlush (online_env True []),
         CallCompletes 0 (Threw \<lparr>e_name = ''Error'', e_message = ''Vendor not found''\<rparr>)
           (online_env False [])])) = None"
  by (simp add: sys_eval)

text \<open>
  C8, amended: at most one invocation of \<open>flush\<close> is in progress at any time, and the
  guard \<open>_flushing\<close> is set exactly while one is. A call of \<open>flush\<close>, with any \<open>force\<close>
  argument, made while one is in progress returns at once and leaves the queue, the retry
  counter and the timer as they are. At its end the flush in progress arms the timer
  itself only when items remain, its failure was a network error, connectivity is up
  and no timer is armed; when items remain after any other failure, or with
  connectivity down, it leaves timer, next-retry time and retry counter unchanged.
\<close>

theorem C8_mutual_exclusion:
  "length (waiting (sys_run xs evs)) \<le> 1
   \<and> (flushing (s_q (sys_run xs evs)) \<longleftrightarrow> waiting (sys_run xs evs) \<noteq> [])
   \<and> (waiting (sys_run xs evs) \<noteq> []
        \<longrightarrow> sys_step (sys_run xs evs) (CallsFlush env) = sys_run xs evs)
   \<and> (flushing q \<longrightarrow> flush env q = (q, no_trace))
   \<and> timer (flush_finish env q remaining failedNet) =
        (if remaining = [] then None
         else if onLine_end env \<and> failedNet \<and> timer q = None
         then Some (min 60000 (2000 * 2 ^ min (retryCount q + 1) 6) + nat \<lfloor>f_random env * 400\<rfloor>)
         else timer q)
   \<and> (remaining \<noteq> [] \<and> \<not> (onLine_end env \<and> failedNet)
        \<longrightarrow> timer (flush_finish env q remaining failedNet) = timer q
          \<and> nextRetryAt (flush_finish env q remaining failedNet) = nextRetryAt q
          \<and> retryCount (flush_finish env q remaining failedNet) = retryCount q)"
proof -
  note inv = sys_run_inv [of xs evs]
  have c3: "sys_step (sys_run xs evs) (CallsFlush env) = sys_run xs evs"
    if "waiting (sys_run xs evs) \<noteq> []"
    using that inv by (simp add: enter_flush_def)
  have c4: "flush env q = (q, no_trace)" if "flushing q"
    using that by (simp add: flush_def)
  have c6: "timer (flush_finish env q remaining failedNet) = timer q
          \<and> nextRetryAt (flush_finish env q remaining failedNet) = nextRetryAt q
          \<and> retryCount (flush_finish env q remaining failedNet) = retryCount q"
    if "remaining \<noteq> []" "\<not> (onLine_end env \<and> failedNet)"
    using that by (auto simp: flush_finish_def)
  show ?thesis
    using inv c3 c4 c6 timer_flush_finish [of env q remaining failedNet] by blast
qed

theorem C8_mutual_exclusion_witness:
  "waiting (sys_run [example_item ''q1'' ''admin.assign''] [CallsFlush (online_env False [])]) \<noteq> []
   \<and> sys_step (sys_run [example_item ''q1'' ''admin.assign''] [CallsFlush (online_env False [])])
        (CallsFlush (online_env True []))
     = sys_run [example_item ''q1'' ''admin.assign''] [CallsFlush (online_env False [])]
   \<and> flush (online_env True [])
        (s_q (sys_run [example_item ''q1'' ''admin.assign''] [CallsFlush (online_env False [])]))
     = (s_q (sys_run [example_item ''q1'' ''admin.assign''] [CallsFlush (online_env False [])]),
        no_trace)
   \<and> timer (flush_finish (online_env False [])
        (s_q (sys_run [example_item ''q1'' ''admin.assign''] [CallsFlush (online_env False [])]))
        [example_item ''q1'' ''admin.assign''] False) = None"
proof -
  let ?s = "sys_run [example_item ''q1'' ''admin.assign''] [CallsFlush (online_env False [])]"
  have w: "waiting ?s \<noteq> []"
    by (simp add: sys_eval)
  have t: "timer (s_q ?s) = None"
    by (simp add: sys_eval)
  have r: "[example_item ''q1'' ''admin.assign''] \<noteq> []
      \<and> \<not> (onLine_end (online_env False []) \<and> False)"
    by simp
  note inst = C8_mutual_exclusion [where xs = "[example_item ''q1'' ''admin.assign'']"
      and evs = "[CallsFlush (online_env False [])]" and env = "online_env True []"
      and q = "s_q ?s"]
  have f: "flushing (s_q ?s)"
    using inst w by blast
  have w2: "sys_step ?s (CallsFlush (online_env True [])) = ?s"
    using inst w by blast
  have w3: "flush (online_env True []) (s_q ?s) = (s_q ?s, no_trace)"
    using inst f by blast
  have w4: "timer (flush_finish (online_env False []) (s_q ?s)
      [example_item ''q1'' ''admin.assign''] False) = timer (s_q ?s)"
    using C8_mutual_exclusion [where env = "online_env False []" and q = "s_q ?s"
        and remaining = "[example_item ''q1'' ''admin.assign'']" and failedNet = False] r
    by blast
  show ?thesis
    using w w2 w3 w4 t by simp
qed

subsection \<open>A flush that nothing interrupts\<close>

lemma completions_idle:
  "waiting s = [] \<Longrightarrow> foldl sys_step s (completions res env xs i) = s"
proof (induction xs arbitrary: i)
  case Nil
  then show ?case by simp
next
  case (Cons x xs)
  then show ?case
    by (auto simp: resume_def split: option.splits call_result.splits)
qed

lemma catch_block_on_failure:
  "j < length xs \<Longrightarrow>
     catch_block onl t xs \<lparr>f_index = j, f_item = xs ! j\<rparr> e = on_failure onl t xs j e"
  by (simp add: catch_block_def on_failure_def Let_def)

text \<open>
  From a state in which the flush awaits the next call at or after index \<open>length pre\<close>,
  the completions lead to the state that the loop and the end of \<open>flush\<close> give.
\<close>

lemma completions_loop:
  assumes "qlist q = pre @ suf"
  shows "(next_call (qlist q) (length pre) = None
            \<longrightarrow> completions res env suf (length pre) = []
                \<and> snd (flush_loop res (qlist q) (length pre) cs) = None)
       \<and> (next_call (qlist q) (length pre) = Some j
            \<longrightarrow> foldl sys_step \<lparr>s_q = q, waiting = [\<lparr>f_index = j, f_item = qlist q ! j\<rparr>]\<rparr>
                  (completions res env suf (length pre))
              = \<lparr>s_q = (case snd (flush_loop res (qlist q) (length pre) cs) of
                          None \<Rightarrow> flush_finish env q [] False
                        | Some (k, e) \<Rightarrow>
                            flush_finish env q (fst (on_failure (onLine_fail env) (f_now_iso env) (qlist q) k e))
                              (snd (on_failure (onLine_fail env) (f_now_iso env) (qlist q) k e))),
                 waiting = []\<rparr>)"
  using assms
proof (induction suf arbitrary: pre cs j)
  case Nil
  then show ?case
    by (simp add: next_call.simps [of pre "length pre"] flush_loop.simps [of res pre "length pre"])
next
  case (Cons x suf)
  let ?i = "length pre"
  from Cons.prems have il: "?i < length (qlist q)" and xi: "qlist q ! ?i = x"
    by simp_all
  have split: "qlist q = (pre @ [x]) @ suf"
    using Cons.prems by simp
  have len: "length (pre @ [x]) = Suc ?i"
    by simp
  note IH = Cons.IH [OF split, unfolded len]
  show ?case
  proof (cases "endpoint (q_type x)")
    case None
    have "next_call (qlist q) ?i = next_call (qlist q) (Suc ?i)"
      using il xi None by (simp add: next_call.simps [of "qlist q" ?i])
    moreover have "flush_loop res (qlist q) ?i cs = flush_loop res (qlist q) (Suc ?i) cs"
      using il xi None by (simp add: flush_loop.simps [of res "qlist q" ?i])
    ultimately show ?thesis
      using IH [of cs j] None by simp
  next
    case (Some path)
    have nc: "next_call (qlist q) ?i = Some ?i"
      using il xi Some by (simp add: next_call.simps [of "qlist q" ?i])
    show ?thesis
    proof (cases "res ?i")
      case (Threw e)
      have "snd (flush_loop res (qlist q) ?i cs) = Some (?i, e)"
        using il xi Some Threw by (simp add: flush_loop.simps [of res "qlist q" ?i])
      moreover have "catch_block (onLine_fail env) (f_now_iso env) (qlist q)
            \<lparr>f_index = ?i, f_item = qlist q ! ?i\<rparr> e
          = on_failure (onLine_fail env) (f_now_iso env) (qlist q) ?i e"
        using catch_block_on_failure [OF il] by simp
      ultimately show ?thesis
        using Some Threw
        by (auto simp: nc resume_def case_prod_beta)
    next
      case Returned
      have fl: "flush_loop res (qlist q) ?i cs
          = flush_loop res (qlist q) (Suc ?i) (cs @ [(path, ''POST'', q_payload x)])"
        using il xi Some Returned by (simp add: flush_loop.simps [of res "qlist q" ?i])
      show ?thesis
      proof (cases "next_call (qlist q) (Suc ?i)")
        case None
        then show ?thesis
          using IH [of "cs @ [(path, ''POST'', q_payload x)]" j] Some Returned
          by (auto simp: nc fl resume_def)
      next
        case (Some j')
        then show ?thesis
          using IH [of "cs @ [(path, ''POST'', q_payload x)]" j'] \<open>endpoint (q_type x) = Some path\<close>
            Returned
          by (auto simp: nc fl resume_def)
      qed
    qed
  qed
qed

text \<open>
  The function \<open>flush\<close> is the system running a flush that nothing interrupts.
\<close>

lemma flush_uninterrupted:
  assumes "\<not> flushing q"
  shows "foldl sys_step \<lparr>s_q = q, waiting = []\<rparr> (uninterrupted env q)
     = \<lparr>s_q = fst (flush env q), waiting = []\<rparr>"
proof (cases "\<not> onLine_start env \<or> qlist q = []")
  case True
  then have "enter_flush env \<lparr>s_q = q, waiting = []\<rparr> = \<lparr>s_q = fst (flush env q), waiting = []\<rparr>"
    using assms by (auto simp: enter_flush_def flush_def Let_def clearSchedule_def)
  then show ?thesis
    by (simp add: uninterrupted_def completions_idle)
next
  case False
  let ?q2 = "(if force env then clearSchedule (q\<lparr>retryCount := 0\<rparr>) else q)\<lparr>flushing := True\<rparr>"
  have q2: "qlist ?q2 = qlist q"
    by (simp add: clearSchedule_def)
  have fl: "fst (flush env q)
      = (case snd (flush_loop (results env) (qlist q) 0 []) of
           None \<Rightarrow> flush_finish env ?q2 [] False
         | Some (k, e) \<Rightarrow>
             flush_finish env ?q2
               (fst (on_failure (onLine_fail env) (f_now_iso env) (qlist q) k e))
               (snd (on_failure (onLine_fail env) (f_now_iso env) (qlist q) k e)))"
    using assms False
    by (auto simp: flush_def Let_def clearSchedule_def split: prod.splits option.splits)
  have cl: "(next_call (qlist q) 0 = None
            \<longrightarrow> completions (results env) env (qlist q) 0 = []
                \<and> snd (flush_loop (results env) (qlist q) 0 []) = None)
       \<and> (next_call (qlist q) 0 = Some j
            \<longrightarrow> foldl sys_step \<lparr>s_q = ?q2, waiting = [\<lparr>f_index = j, f_item = qlist q ! j\<rparr>]\<rparr>
                  (completions (results env) env (qlist q) 0)
              = \<lparr>s_q = (case snd (flush_loop (results env) (qlist q) 0 []) of
                          None \<Rightarrow> flush_finish env ?q2 [] False
                        | Some (k, e) \<Rightarrow>
                            flush_finish env ?q2
                              (fst (on_failure (onLine_fail env) (f_now_iso env) (qlist q) k e))
                              (snd (on_failure (onLine_fail env) (f_now_iso env) (qlist q) k e))),
                 waiting = []\<rparr>)" for j
    using completions_loop [where q = ?q2 and pre = "[]" and suf = "qlist q" and j = j
        and res = "results env" and env = env and cs = "[]", unfolded q2]
    by simp
  show ?thesis
  proof (cases "next_call (qlist q) 0")
    case None
    then have "enter_flush env \<lparr>s_q = q, waiting = []\<rparr>
        = \<lparr>s_q = flush_finish env ?q2 [] False, waiting = []\<rparr>"
      using assms False by (auto simp: enter_flush_def Let_def clearSchedule_def)
    then show ?thesis
      using cl None by (simp add: uninterrupted_def fl)
  next
    case (Some j)
    then have "enter_flush env \<lparr>s_q = q, waiting = []\<rparr>
        = \<lparr>s_q = ?q2, waiting = [\<lparr>f_index = j, f_item = qlist q ! j\<rparr>]\<rparr>"
      using assms False by (auto simp: enter_flush_def Let_def clearSchedule_def)
    then show ?thesis
      using cl Some by (simp add: uninterrupted_def fl)
  qed
qed

end
